theory Spec2Isabelle
  imports Complex_Main
begin

section \<open>Data model of the virtualization hook\<close>

text \<open>
  The hook keeps its state in mutable ref cells and reacts to events (resize, scroll,
  size probe, animation frame, timers). The embedding below passes that state explicitly.
  JavaScript numbers that measure pixels (offsets, sizes) are taken as reals; numbers that
  count or index items are integers (\<open>int\<close> where the code can produce \<open>-1\<close>, \<open>nat\<close>
  where it cannot). A JavaScript array is a list of optional entries: \<open>None\<close> is a hole
  (a read gives \<open>undefined\<close>), and a read outside the list gives \<open>undefined\<close> as well.
  A property read on \<open>undefined\<close> throws a \<open>TypeError\<close>; every such throw is a branch of
  the model.

  The hook imports its helpers from \<open>./utils\<close>, a file that is not among the sources.
  \<open>findNearestBinarySearch\<close> and \<open>useDebounce\<close> are modelled from the spec, where they
  are defined below; \<open>shouldUpdate\<close> and the easing function are parameters; \<open>isNumber\<close>
  is the test for a numeric argument; \<open>useLatest\<close> holds the current value of an option,
  which is fixed here; \<open>now\<close>, the resize observer and the layout effect are the
  environment, whose readings and notifications are the arguments of the events.
\<close>

datatype error = TypeError

record Measure =
  ms_idx :: nat
  ms_start :: real
  ms_end :: real
  ms_size :: real

record Rect =
  width :: real
  height :: real

datatype ItemSize = FixedSize real | SizeFn "nat \<Rightarrow> real \<Rightarrow> real option"

datatype UseIsScrolling = UxUndefined | UxBool bool | UxFn "real \<Rightarrow> bool"

datatype Align = AlignAuto | AlignStart | AlignCenter | AlignEnd

text \<open>The argument of \<open>scrollTo\<close>: a number, or an options object whose \<open>offset\<close> may fail
  to be a number (\<open>None\<close>) and whose \<open>smooth\<close> is false when absent. The test
  \<open>isNumber\<close> of the source (imported from \<open>./utils\<close>, a file that is not among the
  sources) is the test for \<open>Some\<close>.\<close>

datatype ScrollToArg = OffsetNum real | OffsetOpts "real option" bool

text \<open>The argument of \<open>scrollToItem\<close>: a number, or an options object with \<open>index\<close>
  (\<open>None\<close> when it is not a number), \<open>align\<close> (\<open>None\<close> when absent) and \<open>smooth\<close>.\<close>

datatype ScrollToItemArg = IndexNum int | ItemOpts "int option" "Align option" bool

text \<open>Completion callbacks. A caller's callback is opaque code: the model gives it a tag
  and logs its invocations. \<open>ItemCont\<close> is the closure that \<open>scrollToItem\<close> hands to
  \<open>scrollToOffset\<close> (source lines 283 to 289).\<close>

datatype Callback = UserCb nat | ItemCont ScrollToItemArg "nat option"

text \<open>What a \<open>measureRef\<close> closure created by \<open>handleScroll\<close> captures (lines 337 to 381).\<close>

record Probe =
  p_idx :: nat
  p_start :: real
  p_size :: real
  p_scrollOffset :: real
  p_isScrolling :: bool
  p_uxScrolling :: bool

text \<open>A rendered item. \<open>it_isScrolling\<close> and \<open>it_isSticky\<close> are \<open>true\<close> or absent in the
  source (\<open>x || undefined\<close>): absent is \<open>False\<close>. \<open>it_measureRef\<close> is \<open>None\<close> for the inert
  callback \<open>() => null\<close>.\<close>

record Item =
  it_index :: nat
  it_start :: real
  it_size :: real
  it_width :: real
  it_isScrolling :: bool
  it_isSticky :: bool
  it_measureRef :: "Probe option"

text \<open>The options of the hook (lines 54 to 69), without the server-side seed
  \<open>ssrItemCount\<close>. \<open>loadMore\<close>, \<open>onScroll\<close> and \<open>onResize\<close> say whether the user's callback
  is given; the calls made to it are logged in the state. \<open>shouldUpdate\<close> is not an option:
  it is the comparison of two item lists imported from \<open>./utils\<close>, a file that is not among
  the sources, and is taken as a parameter.\<close>

record Options =
  itemCount :: nat
  itemSize :: ItemSize
  horizontal :: bool
  overscanCount :: nat
  useIsScrolling :: UseIsScrolling
  stickyIndices :: "nat list option"
  scrollDuration :: real
  scrollEasingFunction :: "real \<Rightarrow> real"
  loadMoreCount :: int
  isItemLoaded :: "(int \<Rightarrow> bool) option"
  loadMore :: bool
  onScroll :: bool
  onResize :: bool
  shouldUpdate :: "Item list \<Rightarrow> Item list \<Rightarrow> bool"

record LoadMoreArg =
  startIndex :: int
  stopIndex :: int
  loadIndex :: int
  lm_scrollOffset :: real
  lm_userScroll :: bool

record OnScrollArg =
  overscanStartIndex :: int
  overscanStopIndex :: int
  visibleStartIndex :: int
  visibleStopIndex :: int
  os_scrollOffset :: real
  scrollForward :: bool
  os_userScroll :: bool

text \<open>A scheduled animation frame of a smooth scroll (the closure \<open>scroll\<close>, lines 205 to
  219): start time, start offset, target offset and completion callback.\<close>

record Anim =
  an_start :: real
  an_prevOffset :: real
  an_offset :: real
  an_cb :: "Callback option"

text \<open>
  The ref cells of the hook, the two DOM nodes it writes to, and the logs of the calls it
  makes to the user's callbacks. \<open>outerRef\<close> and \<open>innerRef\<close> say whether the node is
  attached; \<open>outerScrollPos\<close> is \<open>outerRef.current[scrollKey]\<close>, a cell that holds what the
  code assigns (the browser's own clamping of a scroll position is outside the code);
  \<open>styleMargin\<close> and \<open>styleSize\<close> are the inner node's margin and size styles in pixels.
  \<open>pendingResetIsScrolling\<close> and \<open>pendingResetUserScroll\<close> are the two debounce timers,
  \<open>frames\<close> the scheduled animation frames with their request ids (\<open>nextRaf\<close> is the
  next id, \<open>scrollToRaf\<close> the id kept in \<open>scrollToRafRef\<close>), \<open>timeouts\<close> the deferred
  re-issues of \<open>scrollToItem\<close>.
\<close>

record engine =
  items :: "Item list"
  isMounted :: bool
  hasDynamicSize :: bool
  scrollOffset :: real
  prevItemIdx :: int
  prevVStop :: "int option"
  outerRef :: bool
  innerRef :: bool
  outerScrollPos :: real
  styleMargin :: real
  styleSize :: real
  outerRect :: Rect
  msData :: "Measure option list"
  userScroll :: bool
  loadMoreCalls :: "LoadMoreArg list"
  onScrollCalls :: "OnScrollArg list"
  onResizeCalls :: "Rect list"
  completed :: "nat list"
  frames :: "(nat \<times> Anim) list"
  nextRaf :: nat
  scrollToRaf :: "nat option"
  timeouts :: "(ScrollToItemArg \<times> nat option) list"
  pendingResetIsScrolling :: bool
  pendingResetUserScroll :: bool

definition DEFAULT_ITEM_SIZE :: real where
  "DEFAULT_ITEM_SIZE = 50"

text \<open>The state before the first effect runs (lines 70 to 86), without a server-side seed.\<close>

definition initial :: "bool \<Rightarrow> bool \<Rightarrow> engine" where
  "initial outer inner =
     \<lparr>items = [], isMounted = False, hasDynamicSize = False, scrollOffset = 0,
      prevItemIdx = - 1, prevVStop = None, outerRef = outer, innerRef = inner,
      outerScrollPos = 0, styleMargin = 0, styleSize = 0,
      outerRect = \<lparr>width = 0, height = 0\<rparr>, msData = [], userScroll = True,
      loadMoreCalls = [], onScrollCalls = [], onResizeCalls = [], completed = [],
      frames = [], nextRaf = 1, scrollToRaf = None, timeouts = [], pendingResetIsScrolling = False,
      pendingResetUserScroll = False\<rparr>"

subsection \<open>Arrays\<close>

text \<open>\<open>xs[i]\<close>: \<open>undefined\<close> (here \<open>None\<close>) at a hole and outside the array.\<close>

definition arr_get :: "'a option list \<Rightarrow> int \<Rightarrow> 'a option" where
  "arr_get xs i = (if 0 \<le> i \<and> i < int (length xs) then xs ! nat i else None)"

text \<open>\<open>xs.length = n\<close>: truncates, or pads with holes.\<close>

definition set_length :: "'a option list \<Rightarrow> nat \<Rightarrow> 'a option list" where
  "set_length xs n = take n xs @ replicate (n - length xs) None"

text \<open>\<open>xs[i] = v\<close>: an assignment past the end extends the array with holes.\<close>

definition array_set :: "'a option list \<Rightarrow> nat \<Rightarrow> 'a \<Rightarrow> 'a option list" where
  "array_set xs i v =
     (if i < length xs then xs[i := Some v]
      else xs @ replicate (i - length xs) None @ [Some v])"

text \<open>A property read \<open>x.f\<close>: throws when \<open>x\<close> is \<open>undefined\<close>.\<close>

definition field :: "'a option \<Rightarrow> ('a \<Rightarrow> 'b) \<Rightarrow> error + 'b" where
  "field x f = (case x of None \<Rightarrow> Inl TypeError | Some v \<Rightarrow> Inr (f v))"

text \<open>Sequencing of computations that may throw.\<close>

definition andThen :: "error + 'a \<Rightarrow> ('a \<Rightarrow> error + 'b) \<Rightarrow> error + 'b" where
  "andThen m f = (case m of Inl e \<Rightarrow> Inl e | Inr v \<Rightarrow> f v)"

section \<open>Measurement store\<close>

text \<open>\<open>sizeKey\<close> selects the viewport's extent along the scroll axis (line 93).\<close>

definition outerSize :: "Options \<Rightarrow> engine \<Rightarrow> real" where
  "outerSize cfg st =
     (if \<not> horizontal cfg then height (outerRect st) else width (outerRect st))"

text \<open>\<open>getItemSize\<close> (lines 97 to 105).\<close>

definition getItemSize :: "Options \<Rightarrow> engine \<Rightarrow> nat \<Rightarrow> real" where
  "getItemSize cfg st i =
     (case itemSize cfg of
        FixedSize s \<Rightarrow> s
      | SizeFn f \<Rightarrow>
          (case f i (width (outerRect st)) of
             None \<Rightarrow> DEFAULT_ITEM_SIZE
           | Some s \<Rightarrow> s))"

text \<open>\<open>getMeasure\<close> (lines 107 to 110): the start is the previous entry's end, or 0 when
  there is no previous entry.\<close>

definition getMeasure :: "Measure option list \<Rightarrow> nat \<Rightarrow> real \<Rightarrow> Measure" where
  "getMeasure ms i sz =
     (let start = (case arr_get ms (int i - 1) of None \<Rightarrow> 0 | Some m \<Rightarrow> ms_end m)
      in \<lparr>ms_idx = i, ms_start = start, ms_end = start + sz, ms_size = sz\<rparr>)"

text \<open>One round of the loop of \<open>measureItems\<close> (lines 117 to 122): the array is updated in
  place, so a round reads the entries the earlier rounds wrote.\<close>

definition measureItem :: "Options \<Rightarrow> engine \<Rightarrow> bool \<Rightarrow> nat \<Rightarrow> Measure option list
    \<Rightarrow> Measure option list" where
  "measureItem cfg st useCache i ms =
     array_set ms i
       (getMeasure ms i
          (case (if useCache then arr_get ms (int i) else None) of
             Some m \<Rightarrow> ms_size m
           | None \<Rightarrow> getItemSize cfg st i))"

text \<open>\<open>measureItems\<close> (lines 112 to 125).\<close>

definition measureItems :: "Options \<Rightarrow> bool \<Rightarrow> engine \<Rightarrow> engine" where
  "measureItems cfg useCache st =
     st\<lparr>msData := fold (measureItem cfg st useCache) [0..<itemCount cfg]
                     (set_length (msData st) (itemCount cfg))\<rparr>"

section \<open>Window calculator\<close>

text \<open>
  Modelled from the spec: \<open>findNearestBinarySearch\<close> is imported from \<open>./utils\<close>, a file
  that is not among the sources. The spec (sections 4.2 and 4.4) says that it is a binary
  search over a monotonic sequence, given by a lower and an upper index, the value looked
  for and an accessor, and that it yields the greatest index whose value is not past the
  input (the item that contains the scroll offset, the greatest sticky index at or before
  the visible start). The spec names no result for an input before every value: the model
  then yields index 0. An accessor that throws ends the search with its error.
\<close>

function findNearestBinarySearch ::
    "int \<Rightarrow> int \<Rightarrow> 'a::linorder \<Rightarrow> (int \<Rightarrow> error + 'a) \<Rightarrow> error + int" where
  "findNearestBinarySearch low high input getVal =
     (if low \<le> high then
        (case getVal ((low + high) div 2) of
           Inl e \<Rightarrow> Inl e
         | Inr v \<Rightarrow>
             if input < v then findNearestBinarySearch low ((low + high) div 2 - 1) input getVal
             else if v < input then
               findNearestBinarySearch ((low + high) div 2 + 1) high input getVal
             else Inr ((low + high) div 2))
      else Inr (if 0 < low then low - 1 else 0))"
  by pat_completeness auto
termination
  by (relation "measure (\<lambda>(low, high, input, getVal). nat (high + 1 - low))") auto

text \<open>The values returned by \<open>getCalcData\<close>; the returned \<open>vStop\<close> can be \<open>-1\<close>.\<close>

record CalcData =
  oStart :: int
  oStop :: int
  vStart :: int
  vStop :: int
  margin :: real
  innerSize :: real

text \<open>The linear scan for \<open>vStart\<close> when a dynamic size has been seen (lines 133 to 139).
  \<open>msData[vStart + 1]?.start ?? 0\<close> is 0 past the end and at a hole.\<close>

function scanStart :: "Measure option list \<Rightarrow> real \<Rightarrow> int \<Rightarrow> error + int" where
  "scanStart ms scrollOff v =
     (if v < int (length ms) then
        (case arr_get ms v of
           None \<Rightarrow> Inl TypeError
         | Some m \<Rightarrow>
             if ms_start m < (case arr_get ms (v + 1) of None \<Rightarrow> 0 | Some m' \<Rightarrow> ms_start m')
                \<and> ms_start m + ms_size m < scrollOff
             then scanStart ms scrollOff (v + 1)
             else Inr v)
      else Inr v)"
  by pat_completeness auto
termination
  by (relation "measure (\<lambda>(ms, scrollOff, v). nat (int (length ms) - v))") auto

text \<open>The loop for \<open>vStop\<close> (lines 152 to 158); \<open>bound\<close> is the scroll offset plus the
  viewport's size.\<close>

function scanStop :: "Measure option list \<Rightarrow> real \<Rightarrow> int \<Rightarrow> real \<Rightarrow> error + int" where
  "scanStop ms bound v currStart =
     (if v < int (length ms) \<and> currStart < bound then
        (case arr_get ms v of
           None \<Rightarrow> Inl TypeError
         | Some m \<Rightarrow> scanStop ms bound (v + 1) (currStart + ms_size m))
      else Inr v)"
  by pat_completeness auto
termination
  by (relation "measure (\<lambda>(ms, bound, v, currStart). nat (int (length ms) - v))") auto

text \<open>The search for \<open>vStart\<close> (lines 130 to 147).\<close>

definition findStart :: "engine \<Rightarrow> real \<Rightarrow> error + int" where
  "findStart st scrollOff =
     (if hasDynamicSize st then scanStart (msData st) scrollOff 0
      else findNearestBinarySearch 0 (int (length (msData st)) - 1) scrollOff
             (\<lambda>idx. field (arr_get (msData st) idx) ms_start))"

text \<open>\<open>getCalcData\<close> (lines 127 to 178).\<close>

definition getCalcData :: "Options \<Rightarrow> engine \<Rightarrow> real \<Rightarrow> error + CalcData" where
  "getCalcData cfg st scrollOff =
     (let ms = msData st; len = int (length ms) in
      andThen (findStart st scrollOff) (\<lambda>vStart'.
      andThen (field (arr_get ms vStart') ms_start) (\<lambda>currStart.
      andThen (scanStop ms (scrollOff + outerSize cfg st) vStart' currStart) (\<lambda>vStop'.
        let oStart' = max (vStart' - int (overscanCount cfg)) 0;
            oStop' = min (vStop' + int (overscanCount cfg)) len - 1
        in
      andThen (field (arr_get ms oStart') ms_start) (\<lambda>margin'.
      andThen (field (arr_get ms oStop') (\<lambda>m. ms_end m + ms_size m)) (\<lambda>next_end.
      andThen (field (arr_get ms (len - 1)) ms_end) (\<lambda>last_end.
        let totalSize = (if oStop' < len - 1 then max next_end last_end
                         else min next_end last_end)
        in Inr \<lparr>oStart = oStart', oStop = oStop', vStart = vStart', vStop = vStop' - 1,
                 margin = margin', innerSize = totalSize - margin'\<rparr>)))))))"

section \<open>Scroll navigator\<close>

text \<open>An event handler either returns or throws; the writes it made before a throw stay.\<close>

datatype outcome = Returned engine | Threw error engine

definition state_of :: "outcome \<Rightarrow> engine" where
  "state_of r = (case r of Returned st \<Rightarrow> st | Threw e st \<Rightarrow> st)"

text \<open>\<open>scrollTo\<close> (lines 180 to 185).\<close>

definition scrollTo :: "real \<Rightarrow> engine \<Rightarrow> engine" where
  "scrollTo offset st = (if outerRef st then st\<lparr>outerScrollPos := offset\<rparr> else st)"

text \<open>\<open>if (cb) cb()\<close>. The closure of lines 283 to 289 either completes the caller's
  callback or defers a re-issue of \<open>scrollToItem\<close> by \<open>setTimeout\<close>.\<close>

definition complete :: "nat option \<Rightarrow> engine \<Rightarrow> engine" where
  "complete cb st = (case cb of None \<Rightarrow> st | Some k \<Rightarrow> st\<lparr>completed := completed st @ [k]\<rparr>)"

definition invoke :: "Callback option \<Rightarrow> engine \<Rightarrow> engine" where
  "invoke cb st =
     (case cb of
        None \<Rightarrow> st
      | Some (UserCb k) \<Rightarrow> complete (Some k) st
      | Some (ItemCont val cb') \<Rightarrow>
          if \<not> hasDynamicSize st then complete cb' st
          else st\<lparr>timeouts := timeouts st @ [(val, cb')]\<rparr>)"

text \<open>\<open>requestAnimationFrame(scroll)\<close> with the id stored in \<open>scrollToRafRef\<close>.\<close>

definition requestFrame :: "Anim \<Rightarrow> engine \<Rightarrow> engine" where
  "requestFrame a st =
     st\<lparr>frames := frames st @ [(nextRaf st, a)], scrollToRaf := Some (nextRaf st),
        nextRaf := Suc (nextRaf st)\<rparr>"

text \<open>\<open>scrollToOffset\<close> (lines 187 to 222), the \<open>scrollTo\<close> of the public interface.
  \<open>now\<close> is what the clock reads when the call is made.\<close>

definition scrollToOffset :: "real \<Rightarrow> ScrollToArg \<Rightarrow> Callback option \<Rightarrow> engine \<Rightarrow> engine" where
  "scrollToOffset now val cb st =
     (let prevOffset = scrollOffset st;
          offset = (case val of OffsetNum n \<Rightarrow> Some n | OffsetOpts off sm \<Rightarrow> off);
          smooth = (case val of OffsetNum n \<Rightarrow> False | OffsetOpts off sm \<Rightarrow> sm)
      in case offset of
           None \<Rightarrow> st
         | Some off \<Rightarrow>
             if \<not> smooth then invoke cb (scrollTo off (st\<lparr>userScroll := False\<rparr>))
             else requestFrame
                    \<lparr>an_start = now, an_prevOffset = prevOffset, an_offset = off, an_cb = cb\<rparr>
                    (st\<lparr>userScroll := False\<rparr>))"

text \<open>One animation frame (the closure \<open>scroll\<close>, lines 206 to 217) of the request with id
  \<open>k\<close>, when the clock reads \<open>now\<close>. With \<open>scrollDuration = 0\<close> the quotient is not finite
  in JavaScript and \<open>Math.min\<close> gives 1 for a clock that moved on; the model takes 1.\<close>

definition runFrame :: "Options \<Rightarrow> real \<Rightarrow> nat \<Rightarrow> engine \<Rightarrow> engine" where
  "runFrame cfg now k st =
     (case map_of (frames st) k of
        None \<Rightarrow> st
      | Some a \<Rightarrow>
          let st0 = st\<lparr>frames := filter (\<lambda>f. fst f \<noteq> k) (frames st)\<rparr>;
              time = (if scrollDuration cfg = 0 then 1
                      else min ((now - an_start a) / scrollDuration cfg) 1);
              easing = scrollEasingFunction cfg time;
              st1 = scrollTo (easing * (an_offset a - an_prevOffset a) + an_prevOffset a) st0
          in if time < 1 then requestFrame a st1 else invoke (an_cb a) st1)"

text \<open>The target offset of \<open>scrollToItem\<close> under an alignment (lines 251 to 273).\<close>

definition alignOffset :: "Align \<Rightarrow> real \<Rightarrow> real \<Rightarrow> real \<Rightarrow> Measure \<Rightarrow> real" where
  "alignOffset align cur totalSize outerSz m =
     (let endPos = ms_start m - outerSz + ms_size m in
      case align of
        AlignStart \<Rightarrow>
          if totalSize - ms_start m \<le> outerSz then totalSize - outerSz else ms_start m
      | AlignCenter \<Rightarrow>
          (let to = ms_start m - outerSz / 2 + ms_size m / 2
           in if totalSize - to \<le> outerSz then totalSize - outerSz else to)
      | AlignEnd \<Rightarrow> if ms_start m + ms_size m \<le> outerSz then 0 else endPos
      | AlignAuto \<Rightarrow>
          if cur > ms_start m then ms_start m
          else if cur + outerSz < ms_end m then endPos
          else cur)"

text \<open>\<open>scrollToItem\<close> (lines 224 to 292).\<close>

definition scrollToItem ::
    "Options \<Rightarrow> real \<Rightarrow> ScrollToItemArg \<Rightarrow> nat option \<Rightarrow> engine \<Rightarrow> outcome" where
  "scrollToItem cfg now val cb st =
     (let index = (case val of IndexNum n \<Rightarrow> Some n | ItemOpts i a sm \<Rightarrow> i);
          align = (case val of IndexNum n \<Rightarrow> AlignAuto
                   | ItemOpts i a sm \<Rightarrow> (case a of None \<Rightarrow> AlignAuto | Some al \<Rightarrow> al));
          smooth = (case val of IndexNum n \<Rightarrow> False | ItemOpts i a sm \<Rightarrow> sm)
      in case index of
           None \<Rightarrow> Returned st
         | Some idx \<Rightarrow>
             let st1 = (if hasDynamicSize st then measureItems cfg True st else st);
                 ms = msData st1;
                 len = int (length ms)
             in case arr_get ms (max 0 (min idx (len - 1))) of
                  None \<Rightarrow> Returned st1
                | Some m \<Rightarrow>
                    (case arr_get ms (len - 1) of
                       None \<Rightarrow> Threw TypeError st1
                     | Some l \<Rightarrow>
                         let totalSize = ms_end l; outerSz = outerSize cfg st1 in
                         if totalSize \<le> outerSz then Returned (complete cb st1)
                         else
                           let target = alignOffset align (scrollOffset st1) totalSize outerSz m
                           in if hasDynamicSize st1 \<and> \<bar>target - scrollOffset st1\<bar> \<le> 1
                              then Returned (complete cb st1)
                              else Returned (scrollToOffset now (OffsetOpts (Some target) smooth)
                                               (Some (ItemCont val cb)) st1)))"

section \<open>Orchestrator\<close>

text \<open>\<open>isItemLoadedRef.current && isItemLoadedRef.current(k)\<close>.\<close>

definition itemLoaded :: "Options \<Rightarrow> int \<Rightarrow> bool" where
  "itemLoaded cfg k = (case isItemLoaded cfg of None \<Rightarrow> False | Some f \<Rightarrow> f k)"

text \<open>The load request on first mount (lines 308 to 319).\<close>

definition loadFirst :: "Options \<Rightarrow> real \<Rightarrow> engine \<Rightarrow> engine" where
  "loadFirst cfg scrollOff st =
     (if loadMore cfg \<and> \<not> isMounted st \<and> \<not> itemLoaded cfg 0 then
        st\<lparr>loadMoreCalls := loadMoreCalls st @
              [\<lparr>startIndex = 0, stopIndex = loadMoreCount cfg - 1, loadIndex = 0,
                lm_scrollOffset = scrollOff, lm_userScroll = userScroll st\<rparr>]\<rparr>
      else st)"

text \<open>A loop body run over a range; the first throw ends the loop.\<close>

fun collect :: "('a \<Rightarrow> error + 'b) \<Rightarrow> 'a list \<Rightarrow> error + 'b list" where
  "collect f [] = Inr []"
| "collect f (x # xs) =
     (case f x of
        Inl e \<Rightarrow> Inl e
      | Inr y \<Rightarrow> (case collect f xs of Inl e \<Rightarrow> Inl e | Inr ys \<Rightarrow> Inr (y # ys)))"

definition stickies_of :: "Options \<Rightarrow> nat list" where
  "stickies_of cfg = (case stickyIndices cfg of None \<Rightarrow> [] | Some xs \<Rightarrow> xs)"

text \<open>The item pushed for index \<open>i\<close> (lines 338 to 381).\<close>

definition nextItem ::
    "Options \<Rightarrow> engine \<Rightarrow> real \<Rightarrow> real \<Rightarrow> bool \<Rightarrow> bool \<Rightarrow> int \<Rightarrow> error + Item" where
  "nextItem cfg st margin' scrollOff isScrolling uxScrolling i =
     (case arr_get (msData st) i of
        None \<Rightarrow> Inl TypeError
      | Some m \<Rightarrow>
          Inr \<lparr>it_index = nat i, it_start = ms_start m - margin', it_size = ms_size m,
               it_width = width (outerRect st), it_isScrolling = uxScrolling,
               it_isSticky = (nat i \<in> set (stickies_of cfg)),
               it_measureRef =
                 Some \<lparr>p_idx = nat i, p_start = ms_start m, p_size = ms_size m,
                       p_scrollOffset = scrollOff, p_isScrolling = isScrolling,
                       p_uxScrolling = uxScrolling\<rparr>\<rparr>)"

text \<open>The accessor \<open>(idx) => stickies[idx]\<close>. The search reads between its bounds only, which
  lie inside the array, so the branch for an index outside the array is never taken.\<close>

definition stickyAt :: "nat list \<Rightarrow> int \<Rightarrow> error + int" where
  "stickyAt stickies idx =
     (if 0 \<le> idx \<and> idx < int (length stickies) then Inr (int (stickies ! nat idx))
      else Inl TypeError)"

text \<open>The sticky index chosen for a visible start (lines 385 to 393); \<open>None\<close> without
  sticky indices.\<close>

definition stickyIdx :: "nat list \<Rightarrow> int \<Rightarrow> error + int option" where
  "stickyIdx stickies vStart' =
     (if stickies = [] then Inr None
      else andThen (findNearestBinarySearch 0 (int (length stickies) - 1) vStart'
                      (stickyAt stickies))
             (\<lambda>k. andThen (stickyAt stickies k) (\<lambda>s. Inr (Some s))))"

text \<open>\<open>handleScroll\<close> up to \<open>setItems\<close> (lines 326 to 417): the styles written to the inner
  node and the item list, with the sticky item put in front when it lies before the
  overscan window.\<close>

definition render ::
    "Options \<Rightarrow> real \<Rightarrow> bool \<Rightarrow> bool \<Rightarrow> CalcData \<Rightarrow> engine \<Rightarrow> outcome" where
  "render cfg scrollOff isScrolling uxScrolling cd st =
     (let st1 = st\<lparr>styleMargin := margin cd, styleSize := innerSize cd\<rparr> in
      case collect (nextItem cfg st1 (margin cd) scrollOff isScrolling uxScrolling)
             [oStart cd..oStop cd] of
        Inl e \<Rightarrow> Threw e st1
      | Inr nextItems \<Rightarrow>
          (case stickyIdx (stickies_of cfg) (vStart cd) of
             Inl e \<Rightarrow> Threw e st1
           | Inr None \<Rightarrow>
               Returned (st1\<lparr>items := (if shouldUpdate cfg (items st1) nextItems
                                         then nextItems else items st1)\<rparr>)
           | Inr (Some sIdx) \<Rightarrow>
               if oStart cd > sIdx then
                 (case arr_get (msData st1) sIdx of
                    None \<Rightarrow> Threw TypeError st1
                  | Some m \<Rightarrow>
                      let nextItems' =
                            \<lparr>it_index = nat sIdx, it_start = 0, it_size = ms_size m,
                             it_width = width (outerRect st1), it_isScrolling = uxScrolling,
                             it_isSticky = True, it_measureRef = None\<rparr> # nextItems;
                          st2 = st1\<lparr>styleMargin := margin cd - ms_size m,
                                    styleSize := innerSize cd + ms_size m\<rparr>
                      in Returned (st2\<lparr>items := (if shouldUpdate cfg (items st2) nextItems'
                                                   then nextItems' else items st2)\<rparr>))
               else
                 Returned (st1\<lparr>items := (if shouldUpdate cfg (items st1) nextItems
                                           then nextItems else items st1)\<rparr>)))"

text \<open>
  Modelled from the spec: \<open>useDebounce\<close> is imported from \<open>./utils\<close>, a file that is not
  among the sources. The spec (section 4.6 and the design notes) describes it as a
  cancellable scheduled task: a call schedules the callback after a quiet interval of 150
  ms and cancels a pending one; cancelling drops the pending task. The model keeps whether
  a task is pending; the time at which a pending task fires is not modelled, its firing is
  an event (\<open>ResetIsScrolling\<close> and \<open>ResetUserScroll\<close> below).
\<close>

definition resetIsScrolling :: "engine \<Rightarrow> engine" where
  "resetIsScrolling st = st\<lparr>pendingResetIsScrolling := True\<rparr>"

definition resetUserScroll :: "engine \<Rightarrow> engine" where
  "resetUserScroll st = st\<lparr>pendingResetUserScroll := True\<rparr>"

definition cancelResetIsScrolling :: "engine \<Rightarrow> engine" where
  "cancelResetIsScrolling st = st\<lparr>pendingResetIsScrolling := False\<rparr>"

definition cancelResetUserScroll :: "engine \<Rightarrow> engine" where
  "cancelResetUserScroll st = st\<lparr>pendingResetUserScroll := False\<rparr>"

text \<open>\<open>handleScroll\<close> after \<open>setItems\<close>, for a genuine scroll (lines 421 to 451): the
  \<open>onScroll\<close> notification, the load request, and the two debounce timers. The page index is
  \<open>Math.floor((vStop + 1) / loadMoreCount)\<close>, for a page size that is not 0.\<close>

definition notify :: "Options \<Rightarrow> real \<Rightarrow> bool \<Rightarrow> CalcData \<Rightarrow> engine \<Rightarrow> engine" where
  "notify cfg scrollOff uxScrolling cd st =
     (let st1 = (if onScroll cfg then
                   st\<lparr>onScrollCalls := onScrollCalls st @
                         [\<lparr>overscanStartIndex = oStart cd, overscanStopIndex = oStop cd,
                           visibleStartIndex = vStart cd, visibleStopIndex = vStop cd,
                           os_scrollOffset = scrollOff,
                           scrollForward = (scrollOff > scrollOffset st),
                           os_userScroll = userScroll st\<rparr>]\<rparr>
                 else st);
          loadIndex' = (vStop cd + 1) div loadMoreCount cfg;
          startIndex' = loadIndex' * loadMoreCount cfg;
          st2 = (if loadMore cfg \<and> Some (vStop cd) \<noteq> prevVStop st1
                    \<and> \<not> itemLoaded cfg loadIndex' then
                   st1\<lparr>loadMoreCalls := loadMoreCalls st1 @
                          [\<lparr>startIndex = startIndex',
                            stopIndex = startIndex' + loadMoreCount cfg - 1,
                            loadIndex = loadIndex', lm_scrollOffset = scrollOff,
                            lm_userScroll = userScroll st1\<rparr>]\<rparr>
                 else st1);
          st3 = st2\<lparr>prevVStop := Some (vStop cd)\<rparr>;
          st4 = (if uxScrolling then resetIsScrolling st3 else st3)
      in if \<not> userScroll st4 then resetUserScroll st4 else st4)"

text \<open>\<open>handleScroll\<close> (lines 304 to 466).\<close>

definition handleScroll :: "Options \<Rightarrow> real \<Rightarrow> bool \<Rightarrow> bool \<Rightarrow> engine \<Rightarrow> outcome" where
  "handleScroll cfg scrollOff isScrolling uxScrolling st =
     (if \<not> innerRef st then Returned st
      else
        let st1 = loadFirst cfg scrollOff st in
        if itemCount cfg = 0 then Returned (st1\<lparr>items := []\<rparr>)
        else
          (case getCalcData cfg st1 scrollOff of
             Inl e \<Rightarrow> Threw e st1
           | Inr cd \<Rightarrow>
               (case render cfg scrollOff isScrolling uxScrolling cd st1 of
                  Threw e st2 \<Rightarrow> Threw e st2
                | Returned st2 \<Rightarrow>
                    if \<not> isScrolling then Returned st2
                    else Returned (notify cfg scrollOff uxScrolling cd st2))))"

text \<open>The callback of the size probe attached by \<open>measureRef\<close> (lines 352 to 379), for
  the closure data \<open>p\<close> and a measured size. The probe's bookkeeping in \<open>rosRef\<close> belongs
  to the size-probe capability and is not part of the state.\<close>

definition observe :: "Options \<Rightarrow> Probe \<Rightarrow> real \<Rightarrow> engine \<Rightarrow> outcome" where
  "observe cfg p measuredSize st =
     (if measuredSize = 0 then Returned st
      else
        let prevEnd = (case arr_get (msData st) (int (p_idx p) - 1) of
                         None \<Rightarrow> 0 | Some m \<Rightarrow> ms_end m)
        in if measuredSize \<noteq> p_size p \<or> p_start p \<noteq> prevEnd then
             (let st1 = (if int (p_idx p) < prevItemIdx st \<and> p_start p < p_scrollOffset p
                         then scrollTo (p_scrollOffset p + measuredSize - p_size p) st
                         else st);
                  st2 = st1\<lparr>msData := array_set (msData st1) (p_idx p)
                                          (getMeasure (msData st1) (p_idx p) measuredSize)\<rparr>
              in case handleScroll cfg (p_scrollOffset p) (p_isScrolling p) (p_uxScrolling p) st2 of
                   Threw e st3 \<Rightarrow> Threw e st3
                 | Returned st3 \<Rightarrow>
                     Returned (st3\<lparr>hasDynamicSize := True, prevItemIdx := int (p_idx p)\<rparr>))
           else Returned (st\<lparr>prevItemIdx := int (p_idx p)\<rparr>))"

text \<open>\<open>totalSize / prevTotalSize || 1\<close> (line 483): 1 when an operand is \<open>undefined\<close>, when
  the quotient is \<open>0 / 0\<close> and when it is 0. A nonzero total over a zero previous total is
  not finite in JavaScript: \<open>None\<close>.\<close>

definition resizeRatio :: "real option \<Rightarrow> real option \<Rightarrow> real option" where
  "resizeRatio totalSize prevTotalSize =
     (case (totalSize, prevTotalSize) of
        (Some t, Some p) \<Rightarrow>
          if p = 0 then (if t = 0 then Some 1 else None)
          else if t / p = 0 then Some 1 else Some (t / p)
      | _ \<Rightarrow> Some 1)"

definition lastEnd :: "Measure option list \<Rightarrow> real option" where
  "lastEnd ms = map_option ms_end (arr_get ms (int (length ms) - 1))"

text \<open>The callback of the viewport's resize observer (lines 470 to 492). Where the new
  scroll position is not finite the cell is given 0, which is what a browser makes of it.\<close>

definition resized :: "Options \<Rightarrow> Rect \<Rightarrow> engine \<Rightarrow> outcome" where
  "resized cfg rect st =
     (let isSameWidth = (width (outerRect st) = width rect);
          isSameSize = (isSameWidth \<and> height (outerRect st) = height rect);
          prevTotalSize = lastEnd (msData st);
          st1 = st\<lparr>outerRect := rect\<rparr>;
          st2 = measureItems cfg (hasDynamicSize st1) st1
      in case handleScroll cfg (scrollOffset st2) False False st2 of
           Threw e st3 \<Rightarrow> Threw e st3
         | Returned st3 \<Rightarrow>
             let st4 = (if \<not> hasDynamicSize st3 \<and> \<not> isSameWidth then
                          (case resizeRatio (lastEnd (msData st3)) prevTotalSize of
                             Some r \<Rightarrow> scrollTo (scrollOffset st3 * r) st3
                           | None \<Rightarrow> scrollTo 0 st3)
                        else st3);
                 st5 = (if isMounted st4 \<and> \<not> isSameSize \<and> onResize cfg
                        then st4\<lparr>onResizeCalls := onResizeCalls st4 @ [rect]\<rparr> else st4)
             in Returned (st5\<lparr>isMounted := True\<rparr>))"

text \<open>The listener of the container's scroll event (lines 501 to 514): it reads the
  container's scroll position.\<close>

definition scrollHandler :: "Options \<Rightarrow> engine \<Rightarrow> outcome" where
  "scrollHandler cfg st =
     (let scrollOff = outerScrollPos st in
      if scrollOff = scrollOffset st then Returned st
      else
        let uxScrolling = (case useIsScrolling cfg of
                             UxFn f \<Rightarrow> f \<bar>scrollOff - scrollOffset st\<bar>
                           | UxBool b \<Rightarrow> b
                           | UxUndefined \<Rightarrow> False)
        in case handleScroll cfg scrollOff True uxScrolling st of
             Threw e st1 \<Rightarrow> Threw e st1
           | Returned st1 \<Rightarrow> Returned (st1\<lparr>scrollOffset := scrollOff\<rparr>))"

text \<open>The clean-up of the layout effect (lines 520 to 532).\<close>

definition cleanup :: "engine \<Rightarrow> engine" where
  "cleanup st =
     (let st1 = cancelResetUserScroll (cancelResetIsScrolling st) in
      case scrollToRaf st1 of
        None \<Rightarrow> st1
      | Some k \<Rightarrow>
          st1\<lparr>frames := filter (\<lambda>f. fst f \<noteq> k) (frames st1), scrollToRaf := None\<rparr>)"

text \<open>
  The events the hook reacts to: a resize of the viewport, a scroll of the container by
  the user (the position changes, then the listener runs), the scroll event that follows
  a programmatic scroll, a size probe's report, the two public operations, an animation
  frame, the deferred re-issue of \<open>scrollToItem\<close>, the two debounce timers (lines 294 to
  302) and the clean-up. The resize observer (\<open>useResizeEffect\<close>, from \<open>./utils\<close>) and the
  scroll listener (line 499) are attached to the container, so they run only when it is
  present.
\<close>

datatype Event =
    Resize Rect
  | UserScroll real
  | ScrollEvent
  | Observe Probe real
  | CallScrollTo real ScrollToArg "nat option"
  | CallScrollToItem real ScrollToItemArg "nat option"
  | Frame real nat
  | Timeout real
  | ResetIsScrolling
  | ResetUserScroll
  | Cleanup

fun step :: "Options \<Rightarrow> Event \<Rightarrow> engine \<Rightarrow> outcome" where
  "step cfg (Resize rect) st = (if outerRef st then resized cfg rect st else Returned st)"
| "step cfg (UserScroll pos) st =
     (if outerRef st then scrollHandler cfg (st\<lparr>outerScrollPos := pos\<rparr>) else Returned st)"
| "step cfg ScrollEvent st = (if outerRef st then scrollHandler cfg st else Returned st)"
| "step cfg (Observe p measuredSize) st = observe cfg p measuredSize st"
| "step cfg (CallScrollTo now val cb) st =
     Returned (scrollToOffset now val (map_option UserCb cb) st)"
| "step cfg (CallScrollToItem now val cb) st = scrollToItem cfg now val cb st"
| "step cfg (Frame now k) st = Returned (runFrame cfg now k st)"
| "step cfg (Timeout now) st =
     (case timeouts st of
        [] \<Rightarrow> Returned st
      | (val, cb) # rest \<Rightarrow> scrollToItem cfg now val cb (st\<lparr>timeouts := rest\<rparr>))"
| "step cfg ResetIsScrolling st =
     (if pendingResetIsScrolling st
      then handleScroll cfg (scrollOffset st) False False (st\<lparr>pendingResetIsScrolling := False\<rparr>)
      else Returned st)"
| "step cfg ResetUserScroll st =
     (if pendingResetUserScroll st
      then Returned (st\<lparr>pendingResetUserScroll := False, userScroll := True\<rparr>)
      else Returned st)"
| "step cfg Cleanup st = Returned (cleanup st)"

text \<open>A run of events; a handler that throws leaves the state it reached.\<close>

fun run :: "Options \<Rightarrow> Event list \<Rightarrow> engine \<Rightarrow> engine" where
  "run cfg [] st = st"
| "run cfg (ev # evs) st = run cfg evs (state_of (step cfg ev st))"

text \<open>A list of \<open>n\<close> items of one fixed size with the other options at the hook's defaults
  (lines 57 to 64) and no callbacks. The easing function, whose default is imported from
  \<open>./utils\<close>, is a placeholder; \<open>shouldUpdate\<close> always asks for the update.\<close>

definition staticList :: "nat \<Rightarrow> real \<Rightarrow> Options" where
  "staticList n s =
     \<lparr>itemCount = n, itemSize = FixedSize s, horizontal = False, overscanCount = 1,
      useIsScrolling = UxUndefined, stickyIndices = None, scrollDuration = 500,
      scrollEasingFunction = (\<lambda>t. t), loadMoreCount = 15, isItemLoaded = None,
      loadMore = False, onScroll = False, onResize = False,
      shouldUpdate = (\<lambda>prev next. True)\<rparr>"

text \<open>The state after the first resize notification built the store for a viewport
  \<open>rect\<close>, before any scroll.\<close>

definition mounted :: "Options \<Rightarrow> Rect \<Rightarrow> engine" where
  "mounted cfg rect = state_of (resized cfg rect (initial True True))"

section \<open>Notions used in the statements\<close>

text \<open>The size that round \<open>i\<close> of \<open>measureItems\<close> gives item \<open>i\<close>: the cached one when
  the cache is used and holds an entry, the estimate otherwise.\<close>

definition cachedSize :: "Options \<Rightarrow> engine \<Rightarrow> bool \<Rightarrow> nat \<Rightarrow> real" where
  "cachedSize cfg st useCache i =
     (case (if useCache then arr_get (set_length (msData st) (itemCount cfg)) (int i)
            else None) of
        Some m \<Rightarrow> ms_size m
      | None \<Rightarrow> getItemSize cfg st i)"

text \<open>A store without holes.\<close>

definition dense :: "'a option list \<Rightarrow> bool" where
  "dense ms = list_all (\<lambda>m. m \<noteq> None) ms"

text \<open>\<open>msData[j]?.start ?? 0\<close> and \<open>msData[j]?.size ?? 0\<close>.\<close>

definition startAt :: "Measure option list \<Rightarrow> int \<Rightarrow> real" where
  "startAt ms j = (case arr_get ms j of None \<Rightarrow> 0 | Some m \<Rightarrow> ms_start m)"

definition sizeAt :: "Measure option list \<Rightarrow> int \<Rightarrow> real" where
  "sizeAt ms j = (case arr_get ms j of None \<Rightarrow> 0 | Some m \<Rightarrow> ms_size m)"

definition endAt :: "Measure option list \<Rightarrow> int \<Rightarrow> real" where
  "endAt ms j = (case arr_get ms j of None \<Rightarrow> 0 | Some m \<Rightarrow> ms_end m)"

text \<open>The cells that \<open>handleScroll\<close> reads and never writes.\<close>

definition kept ::
    "engine \<Rightarrow> bool \<times> Measure option list \<times> Rect \<times> real \<times> bool \<times> bool \<times> bool \<times> real \<times> bool" where
  "kept st = (hasDynamicSize st, msData st, outerRect st, scrollOffset st, isMounted st,
              innerRef st, outerRef st, outerScrollPos st, userScroll st)"

text \<open>The four indices of a result of \<open>getCalcData\<close>: visible start, visible stop,
  overscan start, overscan stop.\<close>

definition ranges :: "error + CalcData \<Rightarrow> (int \<times> int \<times> int \<times> int) option" where
  "ranges r = (case r of Inl e \<Rightarrow> None
               | Inr cd \<Rightarrow> Some (vStart cd, vStop cd, oStart cd, oStop cd))"

text \<open>The total content size that a result reports: the leading margin plus the inner
  size.\<close>

definition reportedTotal :: "error + CalcData \<Rightarrow> real option" where
  "reportedTotal r = (case r of Inl e \<Rightarrow> None | Inr cd \<Rightarrow> Some (margin cd + innerSize cd))"


definition stickyOptions :: Options where
  "stickyOptions = (staticList 1000 100)\<lparr>stickyIndices := Some [0, 50, 100]\<rparr>"

text \<open>Two items of sizes 100 and 10, without overscan.\<close>

definition twoItems :: Options where
  "twoItems = (staticList 2 100)
     \<lparr>itemSize := SizeFn (\<lambda>i w. if i = 0 then Some 100 else Some 10), overscanCount := 0\<rparr>"

text \<open>The store of \<open>n\<close> items of one size \<open>s\<close>, laid out one after the other.\<close>

definition staticStore :: "nat \<Rightarrow> real \<Rightarrow> Measure option list" where
  "staticStore n s =
     map (\<lambda>i. Some \<lparr>ms_idx = i, ms_start = real i * s, ms_end = real i * s + s, ms_size = s\<rparr>)
       [0..<n]"

text \<open>The stores that the hook builds from sizes that are not negative: no hole, no
  negative start, end or size, and the first item at 0.\<close>

definition storeOK :: "Measure option list \<Rightarrow> bool" where
  "storeOK ms =
     (list_all (\<lambda>m. case m of None \<Rightarrow> False
                      | Some e \<Rightarrow> 0 \<le> ms_start e \<and> 0 \<le> ms_end e \<and> 0 \<le> ms_size e) ms
      \<and> (case ms of [] \<Rightarrow> True | m # rest \<Rightarrow> map_option ms_start m = Some 0))"

text \<open>Estimated sizes that are not negative.\<close>

definition nonnegSizes :: "Options \<Rightarrow> bool" where
  "nonnegSizes cfg =
     (case itemSize cfg of
        FixedSize s \<Rightarrow> 0 \<le> s
      | SizeFn f \<Rightarrow> \<forall>i w. case f i w of None \<Rightarrow> True | Some s \<Rightarrow> 0 \<le> s)"

text \<open>A size probe reports for an item of the store (probes are created for rendered
  items only, lines 337 to 381) a size that is not negative.\<close>

definition goodEvent :: "engine \<Rightarrow> Event \<Rightarrow> bool" where
  "goodEvent st ev =
     (case ev of
        Observe p m \<Rightarrow> 0 \<le> m \<and> p_idx p < length (msData st)
      | _ \<Rightarrow> True)"

fun goodRun :: "Options \<Rightarrow> engine \<Rightarrow> Event list \<Rightarrow> bool" where
  "goodRun cfg st [] = True"
| "goodRun cfg st (ev # evs) = (goodEvent st ev \<and> goodRun cfg (state_of (step cfg ev st)) evs)"

section \<open>The measurement store after a rebuild\<close>

declare findNearestBinarySearch.simps [simp del]
declare scanStart.simps [simp del]
declare scanStop.simps [simp del]

lemma arr_get_nat: "arr_get xs (int i) = (if i < length xs then xs ! i else None)"
  by (simp add: arr_get_def)

lemma arr_get_pred:
  "arr_get xs (int i - 1) = (if 0 < i \<and> i - 1 < length xs then xs ! (i - 1) else None)"
  by (cases i) (auto simp: arr_get_def nat_diff_distrib)

lemma length_set_length: "length (set_length xs n) = n"
  by (simp add: set_length_def)

lemma measure_rounds:
  assumes "length ms0 = n" "k \<le> n" "ms0 = set_length (msData st) (itemCount cfg)"
  shows "length (fold (measureItem cfg st useCache) [0..<k] ms0) = n \<and>
         (\<forall>i<k. fold (measureItem cfg st useCache) [0..<k] ms0 ! i =
            Some \<lparr>ms_idx = i, ms_start = (\<Sum>j<i. cachedSize cfg st useCache j),
                  ms_end = (\<Sum>j<i. cachedSize cfg st useCache j) + cachedSize cfg st useCache i,
                  ms_size = cachedSize cfg st useCache i\<rparr>) \<and>
         (\<forall>i. k \<le> i \<longrightarrow> i < n \<longrightarrow>
            fold (measureItem cfg st useCache) [0..<k] ms0 ! i = ms0 ! i)"
  using assms(2)
proof (induction k)
  case 0
  then show ?case using assms(1) by simp
next
  case (Suc k)
  let ?ms = "fold (measureItem cfg st useCache) [0..<k] ms0"
  let ?m = "\<lambda>i. \<lparr>ms_idx = i, ms_start = (\<Sum>j<i. cachedSize cfg st useCache j),
                  ms_end = (\<Sum>j<i. cachedSize cfg st useCache j) + cachedSize cfg st useCache i,
                  ms_size = cachedSize cfg st useCache i\<rparr>"
  from Suc have IH: "length ?ms = n" "\<forall>i<k. ?ms ! i = Some (?m i)"
    "\<forall>i. k \<le> i \<longrightarrow> i < n \<longrightarrow> ?ms ! i = ms0 ! i" by auto
  have kn: "k < n" using Suc.prems by simp
  have sz: "(case (if useCache then arr_get ?ms (int k) else None) of
             Some m \<Rightarrow> ms_size m | None \<Rightarrow> getItemSize cfg st k) = cachedSize cfg st useCache k"
  proof (cases useCache)
    case True
    have "?ms ! k = ms0 ! k" using IH(3) kn by simp
    then show ?thesis
      using True IH(1) kn assms(1,3) by (simp add: cachedSize_def arr_get_nat)
  next
    case False
    then show ?thesis by (simp add: cachedSize_def)
  qed
  have gm: "getMeasure ?ms k (cachedSize cfg st useCache k) = ?m k"
  proof (cases k)
    case 0
    then show ?thesis by (simp add: getMeasure_def arr_get_def)
  next
    case (Suc k')
    then show ?thesis using IH(1,2) kn by (simp add: getMeasure_def arr_get_nat)
  qed
  have step: "fold (measureItem cfg st useCache) [0..<Suc k] ms0 = ?ms[k := Some (?m k)]"
    using IH(1) kn by (simp add: measureItem_def sz gm array_set_def)
  show ?case unfolding step using IH kn by (auto simp: nth_list_update less_Suc_eq)
qed

lemma length_measureItems: "length (msData (measureItems cfg useCache st)) = itemCount cfg"
  using measure_rounds [of "set_length (msData st) (itemCount cfg)" "itemCount cfg"
      "itemCount cfg" st cfg useCache]
  by (simp add: measureItems_def length_set_length)

lemma nth_measureItems:
  assumes "i < itemCount cfg"
  shows "msData (measureItems cfg useCache st) ! i =
           Some \<lparr>ms_idx = i, ms_start = (\<Sum>j<i. cachedSize cfg st useCache j),
                 ms_end = (\<Sum>j<i. cachedSize cfg st useCache j) + cachedSize cfg st useCache i,
                 ms_size = cachedSize cfg st useCache i\<rparr>"
  using measure_rounds [of "set_length (msData st) (itemCount cfg)" "itemCount cfg"
      "itemCount cfg" st cfg useCache] assms
  by (simp add: measureItems_def length_set_length)





section \<open>The searches of the window calculator\<close>

lemma dense_arr_get:
  assumes "dense ms" "0 \<le> i" "i < int (length ms)"
  shows "\<exists>m. arr_get ms i = Some m"
proof -
  have "nat i < length ms" using assms(2,3) by simp
  then have "ms ! nat i \<in> set ms" by simp
  then have "ms ! nat i \<noteq> None" using assms(1) by (auto simp: dense_def list_all_iff)
  then show ?thesis using assms(2,3) by (auto simp: arr_get_def)
qed

lemma arr_get_None_outside: "i < 0 \<or> int (length ms) \<le> i \<Longrightarrow> arr_get ms i = None"
  by (auto simp: arr_get_def)

lemma fnbs_range:
  assumes "findNearestBinarySearch low high x g = Inr r" "0 \<le> low" "low \<le> high + 1"
  shows "max (low - 1) 0 \<le> r \<and> r \<le> max high 0"
  using assms
proof (induction low high x g rule: findNearestBinarySearch.induct)
  case (1 low high x g)
  show ?case
  proof (cases "low \<le> high")
    case False
    then have "r = (if 0 < low then low - 1 else 0)"
      using "1.prems"(1) by (subst (asm) findNearestBinarySearch.simps) simp
    then show ?thesis using False "1.prems" by (auto split: if_splits)
  next
    case True
    let ?mid = "(low + high) div 2"
    have mid: "low \<le> ?mid" "?mid \<le> high" using True by auto
    from "1.prems"(1) True obtain v where v: "g ?mid = Inr v"
      by (subst (asm) findNearestBinarySearch.simps) (auto split: sum.splits)
    consider (lt) "x < v" | (gt) "\<not> x < v" "v < x" | (eq) "\<not> x < v" "\<not> v < x" by blast
    then show ?thesis
    proof cases
      case lt
      then have "findNearestBinarySearch low (?mid - 1) x g = Inr r"
        using "1.prems"(1) True v by (subst (asm) findNearestBinarySearch.simps) simp
      from "1.IH"(1) [OF True v lt this] "1.prems"(2) mid show ?thesis by auto
    next
      case gt
      then have "findNearestBinarySearch (?mid + 1) high x g = Inr r"
        using "1.prems"(1) True v by (subst (asm) findNearestBinarySearch.simps) simp
      from "1.IH"(2) [OF True v gt this] "1.prems"(2) mid show ?thesis by auto
    next
      case eq
      then have "r = ?mid"
        using "1.prems"(1) True v by (subst (asm) findNearestBinarySearch.simps) simp
      then show ?thesis using mid "1.prems"(2) by auto
    qed
  qed
qed

lemma fnbs_returns:
  assumes "\<forall>i. low \<le> i \<and> i \<le> high \<longrightarrow> (\<exists>v. g i = Inr v)"
  shows "\<exists>r. findNearestBinarySearch low high x g = Inr r"
  using assms
proof (induction low high x g rule: findNearestBinarySearch.induct)
  case (1 low high x g)
  show ?case
  proof (cases "low \<le> high")
    case False
    then show ?thesis by (subst findNearestBinarySearch.simps) simp
  next
    case True
    let ?mid = "(low + high) div 2"
    have mid: "low \<le> ?mid" "?mid \<le> high" using True by auto
    then obtain v where v: "g ?mid = Inr v" using "1.prems" by blast
    consider (lt) "x < v" | (gt) "\<not> x < v" "v < x" | (eq) "\<not> x < v" "\<not> v < x" by blast
    then show ?thesis
    proof cases
      case lt
      have "\<exists>r. findNearestBinarySearch low (?mid - 1) x g = Inr r"
        using "1.IH"(1) [OF True v lt] "1.prems" mid by auto
      then show ?thesis using True v lt by (subst findNearestBinarySearch.simps) simp
    next
      case gt
      have "\<exists>r. findNearestBinarySearch (?mid + 1) high x g = Inr r"
        using "1.IH"(2) [OF True v gt] "1.prems" mid by auto
      then show ?thesis using True v gt by (subst findNearestBinarySearch.simps) simp
    next
      case eq
      then show ?thesis using True v by (subst findNearestBinarySearch.simps) simp
    qed
  qed
qed

lemma fnbs_greatest:
  assumes "findNearestBinarySearch low high x g = Inr r"
    and "\<forall>i. 0 \<le> i \<and> i \<le> H \<longrightarrow> g i = Inr (f i)"
    and "\<forall>i j. 0 \<le> i \<and> i \<le> j \<and> j \<le> H \<longrightarrow> f i \<le> f j"
    and "0 \<le> low" "low \<le> high + 1" "high \<le> H"
    and "\<forall>i. 0 \<le> i \<and> i < low \<longrightarrow> f i \<le> x"
    and "\<forall>i. high < i \<and> i \<le> H \<longrightarrow> x < f i"
  shows "(\<forall>i. 0 \<le> i \<and> i \<le> H \<and> f i \<le> x \<longrightarrow> f i \<le> f r) \<and>
         ((\<exists>i. 0 \<le> i \<and> i \<le> H \<and> f i \<le> x) \<longrightarrow> 0 \<le> r \<and> r \<le> H \<and> f r \<le> x)"
  using assms
proof (induction low high x g rule: findNearestBinarySearch.induct)
  case (1 low high x g)
  note mono = "1.prems"(3)
  show ?case
  proof (cases "low \<le> high")
    case False
    then have hl: "high = low - 1" using "1.prems"(5) by simp
    have r: "r = (if 0 < low then low - 1 else 0)"
      using "1.prems"(1) False by (subst (asm) findNearestBinarySearch.simps) simp
    show ?thesis
    proof (cases "0 < low")
      case True
      then have rr: "r = high" using r hl by simp
      have below: "f r \<le> x" using "1.prems"(7) True rr hl by simp
      have "f i \<le> f r" if "0 \<le> i" "i \<le> H" "f i \<le> x" for i
      proof -
        have "\<not> high < i" using "1.prems"(8) that by force
        then show ?thesis using mono that rr "1.prems"(6) by simp
      qed
      then show ?thesis using below rr True hl "1.prems"(6) by auto
    next
      case F: False
      then have "low = 0" using "1.prems"(4) by simp
      then have "\<forall>i. 0 \<le> i \<and> i \<le> H \<longrightarrow> x < f i" using "1.prems"(8) hl by simp
      then show ?thesis by force
    qed
  next
    case True
    let ?mid = "(low + high) div 2"
    have mid: "low \<le> ?mid" "?mid \<le> high" using True by auto
    have gm: "g ?mid = Inr (f ?mid)" using "1.prems"(2,4,6) mid by simp
    consider (lt) "x < f ?mid" | (gt) "\<not> x < f ?mid" "f ?mid < x"
      | (eq) "\<not> x < f ?mid" "\<not> f ?mid < x" by blast
    then show ?thesis
    proof cases
      case lt
      then have rec: "findNearestBinarySearch low (?mid - 1) x g = Inr r"
        using "1.prems"(1) True gm by (subst (asm) findNearestBinarySearch.simps) simp
      have above: "\<forall>i. ?mid - 1 < i \<and> i \<le> H \<longrightarrow> x < f i"
      proof (intro allI impI)
        fix i assume i: "?mid - 1 < i \<and> i \<le> H"
        then have "f ?mid \<le> f i" using mono mid "1.prems"(4) by simp
        then show "x < f i" using lt by simp
      qed
      show ?thesis
        using "1.IH"(1) [OF True gm lt rec "1.prems"(2) mono "1.prems"(4) _ _ "1.prems"(7) above]
          mid "1.prems"(6) by simp
    next
      case gt
      then have rec: "findNearestBinarySearch (?mid + 1) high x g = Inr r"
        using "1.prems"(1) True gm by (subst (asm) findNearestBinarySearch.simps) simp
      have below: "\<forall>i. 0 \<le> i \<and> i < ?mid + 1 \<longrightarrow> f i \<le> x"
      proof (intro allI impI)
        fix i assume i: "0 \<le> i \<and> i < ?mid + 1"
        then have "f i \<le> f ?mid" using mono mid "1.prems"(6) by simp
        then show "f i \<le> x" using gt by simp
      qed
      show ?thesis
        using "1.IH"(2) [OF True gm gt rec "1.prems"(2) mono _ _ "1.prems"(6) below "1.prems"(8)]
          mid "1.prems"(4) by simp
    next
      case eq
      then have r: "r = ?mid"
        using "1.prems"(1) True gm by (subst (asm) findNearestBinarySearch.simps) simp
      have "f ?mid = x" using eq by simp
      then show ?thesis using r mid "1.prems"(4,6) by auto
    qed
  qed
qed

lemma scanStart_range:
  assumes "scanStart ms x v = Inr r"
  shows "v \<le> r \<and> (v \<le> int (length ms) \<longrightarrow> r \<le> int (length ms))"
  using assms
proof (induction ms x v rule: scanStart.induct)
  case (1 ms x v)
  show ?case
  proof (cases "v < int (length ms)")
    case False
    then show ?thesis using "1.prems" by (subst (asm) scanStart.simps) simp
  next
    case True
    then obtain m where m: "arr_get ms v = Some m"
      using "1.prems" by (subst (asm) scanStart.simps) (auto split: option.splits)
    show ?thesis
    proof (cases "ms_start m < (case arr_get ms (v + 1) of None \<Rightarrow> 0 | Some m' \<Rightarrow> ms_start m')
                \<and> ms_start m + ms_size m < x")
      case go: True
      then have "scanStart ms x (v + 1) = Inr r"
        using "1.prems" True m by (subst (asm) scanStart.simps) simp
      from "1.IH" [OF True m go this] True show ?thesis by simp
    next
      case stop: False
      then have "r = v" using "1.prems" True m by (subst (asm) scanStart.simps) auto
      then show ?thesis by simp
    qed
  qed
qed

lemma scanStart_returns:
  assumes "dense ms" "0 \<le> v"
  shows "\<exists>r. scanStart ms x v = Inr r"
  using assms
proof (induction ms x v rule: scanStart.induct)
  case (1 ms x v)
  show ?case
  proof (cases "v < int (length ms)")
    case False
    then show ?thesis by (subst scanStart.simps) simp
  next
    case True
    then obtain m where m: "arr_get ms v = Some m"
      using dense_arr_get "1.prems" by blast
    show ?thesis
    proof (cases "ms_start m < (case arr_get ms (v + 1) of None \<Rightarrow> 0 | Some m' \<Rightarrow> ms_start m')
                \<and> ms_start m + ms_size m < x")
      case go: True
      have "\<exists>r. scanStart ms x (v + 1) = Inr r"
        using "1.IH" [OF True m go] "1.prems" by simp
      then show ?thesis using True m go by (subst scanStart.simps) simp
    next
      case stop: False
      then show ?thesis using True m by (subst scanStart.simps) auto
    qed
  qed
qed

text \<open>The scan does not pass an index whose start is not below the next start.\<close>

lemma scanStart_halts:
  assumes "scanStart ms x v = Inr r" "v \<le> j" "j < int (length ms)" "0 \<le> v"
    and "\<not> startAt ms j < startAt ms (j + 1)"
  shows "r \<le> j"
  using assms
proof (induction ms x v rule: scanStart.induct)
  case (1 ms x v)
  have vlt: "v < int (length ms)" using "1.prems" by simp
  then obtain m where m: "arr_get ms v = Some m"
    using "1.prems"(1) by (subst (asm) scanStart.simps) (auto split: option.splits)
  show ?case
  proof (cases "ms_start m < (case arr_get ms (v + 1) of None \<Rightarrow> 0 | Some m' \<Rightarrow> ms_start m')
                \<and> ms_start m + ms_size m < x")
    case go: True
    then have rec: "scanStart ms x (v + 1) = Inr r"
      using "1.prems"(1) vlt m by (subst (asm) scanStart.simps) simp
    have "v \<noteq> j" using go m "1.prems"(5) by (auto simp: startAt_def)
    then have "v + 1 \<le> j" using "1.prems"(2) by simp
    from "1.IH" [OF vlt m go rec this "1.prems"(3) _ "1.prems"(5)] "1.prems"(4)
    show ?thesis by simp
  next
    case stop: False
    then have "r = v" using "1.prems"(1) vlt m by (subst (asm) scanStart.simps) auto
    then show ?thesis using "1.prems"(2) by simp
  qed
qed

lemma scanStop_range:
  assumes "scanStop ms b v c = Inr r"
  shows "v \<le> r \<and> (v \<le> int (length ms) \<longrightarrow> r \<le> int (length ms))
         \<and> (v < int (length ms) \<and> c < b \<longrightarrow> v + 1 \<le> r)"
  using assms
proof (induction ms b v c rule: scanStop.induct)
  case (1 ms b v c)
  show ?case
  proof (cases "v < int (length ms) \<and> c < b")
    case False
    then show ?thesis using "1.prems" by (subst (asm) scanStop.simps) auto
  next
    case True
    then obtain m where m: "arr_get ms v = Some m"
      using "1.prems" by (subst (asm) scanStop.simps) (auto split: option.splits)
    then have "scanStop ms b (v + 1) (c + ms_size m) = Inr r"
      using "1.prems" True by (subst (asm) scanStop.simps) simp
    from "1.IH" [OF True m this] True show ?thesis by simp
  qed
qed

lemma scanStop_returns:
  assumes "dense ms" "0 \<le> v"
  shows "\<exists>r. scanStop ms b v c = Inr r"
  using assms
proof (induction ms b v c rule: scanStop.induct)
  case (1 ms b v c)
  show ?case
  proof (cases "v < int (length ms) \<and> c < b")
    case False
    then show ?thesis by (subst scanStop.simps) auto
  next
    case True
    then obtain m where m: "arr_get ms v = Some m"
      using dense_arr_get "1.prems" by blast
    have "\<exists>r. scanStop ms b (v + 1) (c + ms_size m) = Inr r"
      using "1.IH" [OF True m] "1.prems" by simp
    then show ?thesis using True m by (subst scanStop.simps) simp
  qed
qed

section \<open>The window that is returned\<close>

lemma andThen_Inr_iff: "andThen m f = Inr y \<longleftrightarrow> (\<exists>v. m = Inr v \<and> f v = Inr y)"
  by (cases m) (auto simp: andThen_def)

lemma field_Inr_iff: "field x f = Inr y \<longleftrightarrow> (\<exists>v. x = Some v \<and> y = f v)"
  by (cases x) (auto simp: field_def)

lemma getCalcData_Inr:
  assumes "getCalcData cfg st x = Inr cd"
  shows "\<exists>r mr r2 mo mp ml.
     findStart st x = Inr r \<and> arr_get (msData st) r = Some mr \<and>
     scanStop (msData st) (x + outerSize cfg st) r (ms_start mr) = Inr r2 \<and>
     vStart cd = r \<and> vStop cd = r2 - 1 \<and>
     oStart cd = max (r - int (overscanCount cfg)) 0 \<and>
     oStop cd = min (r2 + int (overscanCount cfg)) (int (length (msData st))) - 1 \<and>
     arr_get (msData st) (oStart cd) = Some mo \<and> margin cd = ms_start mo \<and>
     arr_get (msData st) (oStop cd) = Some mp \<and>
     arr_get (msData st) (int (length (msData st)) - 1) = Some ml \<and>
     innerSize cd =
       (if oStop cd < int (length (msData st)) - 1
        then max (ms_end mp + ms_size mp) (ms_end ml)
        else min (ms_end mp + ms_size mp) (ms_end ml)) - ms_start mo"
proof -
  from assms obtain r c r2 mg ne le where
    "findStart st x = Inr r" "field (arr_get (msData st) r) ms_start = Inr c"
    "scanStop (msData st) (x + outerSize cfg st) r c = Inr r2"
    "field (arr_get (msData st) (max (r - int (overscanCount cfg)) 0)) ms_start = Inr mg"
    "field (arr_get (msData st)
        (min (r2 + int (overscanCount cfg)) (int (length (msData st))) - 1))
        (\<lambda>m. ms_end m + ms_size m) = Inr ne"
    "field (arr_get (msData st) (int (length (msData st)) - 1)) ms_end = Inr le"
    "cd = \<lparr>oStart = max (r - int (overscanCount cfg)) 0,
           oStop = min (r2 + int (overscanCount cfg)) (int (length (msData st))) - 1,
           vStart = r, vStop = r2 - 1, margin = mg,
           innerSize =
             (if min (r2 + int (overscanCount cfg)) (int (length (msData st))) - 1
                 < int (length (msData st)) - 1
              then max ne le else min ne le) - mg\<rparr>"
    unfolding getCalcData_def Let_def andThen_Inr_iff by blast
  then show ?thesis
    unfolding field_Inr_iff by (elim exE conjE) simp
qed

lemma findStart_nonneg:
  assumes "findStart st x = Inr r"
  shows "0 \<le> r"
proof (cases "hasDynamicSize st")
  case True
  then show ?thesis using assms scanStart_range [of "msData st" x 0 r]
    by (simp add: findStart_def)
next
  case False
  then have "findNearestBinarySearch 0 (int (length (msData st)) - 1) x
             (\<lambda>idx. field (arr_get (msData st) idx) ms_start) = Inr r"
    using assms by (simp add: findStart_def)
  from fnbs_range [OF this] show ?thesis by simp
qed

lemma findStart_returns:
  assumes "dense (msData st)" "msData st \<noteq> []"
    and "0 \<le> startAt (msData st) (int (length (msData st)) - 1)"
  shows "\<exists>r. findStart st x = Inr r \<and> 0 \<le> r \<and> r \<le> int (length (msData st)) - 1"
proof (cases "hasDynamicSize st")
  case True
  obtain r where r: "scanStart (msData st) x 0 = Inr r"
    using scanStart_returns [OF assms(1), of 0 x] by auto
  have len: "0 < int (length (msData st))" using assms(2) by simp
  have "arr_get (msData st) (int (length (msData st)) - 1 + 1) = None"
    by (simp add: arr_get_def)
  then have "\<not> startAt (msData st) (int (length (msData st)) - 1)
               < startAt (msData st) (int (length (msData st)) - 1 + 1)"
    using assms(3) by (simp add: startAt_def)
  from scanStart_halts [OF r _ _ _ this] len have "r \<le> int (length (msData st)) - 1" by simp
  moreover have "0 \<le> r" using scanStart_range [OF r] by simp
  ultimately show ?thesis using True r by (simp add: findStart_def)
next
  case False
  let ?g = "\<lambda>idx. field (arr_get (msData st) idx) ms_start"
  have "\<forall>i. 0 \<le> i \<and> i \<le> int (length (msData st)) - 1 \<longrightarrow> (\<exists>v. ?g i = Inr v)"
  proof (intro allI impI)
    fix i assume "0 \<le> i \<and> i \<le> int (length (msData st)) - 1"
    then obtain m where "arr_get (msData st) i = Some m"
      using dense_arr_get [OF assms(1), of i] by auto
    then show "\<exists>v. ?g i = Inr v" by (simp add: field_def)
  qed
  from fnbs_returns [OF this] obtain r where
    r: "findNearestBinarySearch 0 (int (length (msData st)) - 1) x ?g = Inr r" by blast
  have "0 \<le> r \<and> r \<le> int (length (msData st)) - 1"
    using fnbs_range [OF r] assms(2) by (cases "msData st") auto
  then show ?thesis using False r by (simp add: findStart_def)
qed

lemma getCalcData_returns:
  assumes "dense (msData st)" "msData st \<noteq> []"
    and "0 \<le> startAt (msData st) (int (length (msData st)) - 1)"
    and "0 < overscanCount cfg \<or> startAt (msData st) 0 < x + outerSize cfg st"
  shows "\<exists>cd. getCalcData cfg st x = Inr cd"
proof -
  let ?ms = "msData st" and ?len = "int (length (msData st))"
  have len: "0 < ?len" using assms(2) by simp
  obtain r where r: "findStart st x = Inr r" "0 \<le> r" "r \<le> ?len - 1"
    using findStart_returns [OF assms(1,2,3)] by blast
  obtain mr where mr: "arr_get ?ms r = Some mr"
    using dense_arr_get [OF assms(1), of r] r by auto
  obtain r2 where r2: "scanStop ?ms (x + outerSize cfg st) r (ms_start mr) = Inr r2"
    using scanStop_returns [OF assms(1) r(2)] by blast
  note rng = scanStop_range [OF r2]
  have r2le: "r \<le> r2" "r2 \<le> ?len" using rng r by auto
  have pos: "1 \<le> r2 + int (overscanCount cfg)"
  proof (cases "r = 0")
    case False
    then show ?thesis using r2le r(2) by simp
  next
    case True
    show ?thesis
    proof (cases "0 < overscanCount cfg")
      case True
      then show ?thesis using r2le r(2) by simp
    next
      case False
      then have "startAt ?ms 0 < x + outerSize cfg st" using assms(4) by simp
      then have "ms_start mr < x + outerSize cfg st" using mr True by (simp add: startAt_def)
      then have "r + 1 \<le> r2" using rng r len by simp
      then show ?thesis using r(2) by simp
    qed
  qed
  let ?oStart = "max (r - int (overscanCount cfg)) 0"
  let ?oStop = "min (r2 + int (overscanCount cfg)) ?len - 1"
  have "0 \<le> ?oStart" "?oStart < ?len" using r len by linarith+
  then obtain mo where mo: "arr_get ?ms ?oStart = Some mo"
    using dense_arr_get [OF assms(1), of ?oStart] by blast
  have "0 \<le> ?oStop" "?oStop < ?len" using pos len by linarith+
  then obtain mp where mp: "arr_get ?ms ?oStop = Some mp"
    using dense_arr_get [OF assms(1), of ?oStop] by blast
  have "0 \<le> ?len - 1" "?len - 1 < ?len" using len by linarith+
  then obtain ml where ml: "arr_get ?ms (?len - 1) = Some ml"
    using dense_arr_get [OF assms(1), of "?len - 1"] by blast
  show ?thesis
    unfolding getCalcData_def andThen_def field_def Let_def
    using r(1) mr r2 mo mp ml by simp
qed

lemma getCalcData_ranges:
  assumes "getCalcData cfg st x = Inr cd"
  shows "0 \<le> oStart cd \<and> oStart cd \<le> vStart cd \<and> vStop cd \<le> oStop cd \<and>
         oStop cd \<le> int (length (msData st)) - 1 \<and> vStart cd < int (length (msData st))"
proof -
  from getCalcData_Inr [OF assms] obtain r mr r2 where
    r: "findStart st x = Inr r" and mr: "arr_get (msData st) r = Some mr"
    and r2: "scanStop (msData st) (x + outerSize cfg st) r (ms_start mr) = Inr r2"
    and eqs: "vStart cd = r" "vStop cd = r2 - 1"
      "oStart cd = max (r - int (overscanCount cfg)) 0"
      "oStop cd = min (r2 + int (overscanCount cfg)) (int (length (msData st))) - 1"
    by blast
  have r0: "0 \<le> r" using findStart_nonneg [OF r] .
  have rlt: "r < int (length (msData st))"
    using mr by (auto simp: arr_get_def split: if_splits)
  have "r2 \<le> int (length (msData st))" using scanStop_range [OF r2] rlt by simp
  then show ?thesis using r0 rlt eqs by auto
qed

section \<open>What a run of the scroll handler leaves unchanged\<close>

lemma kept_loadFirst: "kept (loadFirst cfg x st) = kept st"
  by (simp add: loadFirst_def kept_def)

lemma kept_notify: "kept (notify cfg x ux cd st) = kept st"
  by (simp add: notify_def kept_def Let_def resetIsScrolling_def resetUserScroll_def)

lemma kept_render: "kept (state_of (render cfg x a ux cd st)) = kept st"
  by (simp add: render_def kept_def Let_def state_of_def split: sum.splits option.splits)

lemma kept_handleScroll: "kept (state_of (handleScroll cfg x a ux st)) = kept st"
proof (cases "innerRef st")
  case False
  then show ?thesis by (simp add: handleScroll_def state_of_def)
next
  case inner: True
  let ?st1 = "loadFirst cfg x st"
  show ?thesis
  proof (cases "itemCount cfg = 0")
    case True
    have "kept (?st1\<lparr>items := []\<rparr>) = kept ?st1" by (simp add: kept_def)
    then show ?thesis
      using inner True by (simp add: handleScroll_def state_of_def Let_def kept_loadFirst)
  next
    case n: False
    show ?thesis
    proof (cases "getCalcData cfg ?st1 x")
      case (Inl e)
      then show ?thesis
        using inner n by (simp add: handleScroll_def state_of_def Let_def kept_loadFirst)
    next
      case (Inr cd)
      show ?thesis
      proof (cases "render cfg x a ux cd ?st1")
        case (Threw e s2)
        then have "kept s2 = kept ?st1" using kept_render [of cfg x a ux cd ?st1]
          by (simp add: state_of_def)
        then show ?thesis
          using inner n Inr Threw
          by (simp add: handleScroll_def state_of_def Let_def kept_loadFirst)
      next
        case (Returned s2)
        then have "kept s2 = kept ?st1" using kept_render [of cfg x a ux cd ?st1]
          by (simp add: state_of_def)
        then show ?thesis
          using inner n Inr Returned
          by (simp add: handleScroll_def state_of_def Let_def kept_loadFirst kept_notify)
      qed
    qed
  qed
qed

lemma getCalcData_kept:
  "kept st' = kept st \<Longrightarrow> getCalcData cfg st' x = getCalcData cfg st x"
  by (simp add: getCalcData_def findStart_def outerSize_def kept_def)

section \<open>Lists of one fixed size\<close>

lemma arr_get_map_upt:
  "arr_get (map f [0..<n]) i = (if 0 \<le> i \<and> i < int n then f (nat i) else None)"
  by (auto simp: arr_get_def nat_less_iff)

lemma msData_fixed:
  assumes "itemSize cfg = FixedSize s" "itemCount cfg = n"
  shows "msData (measureItems cfg False st) =
           map (\<lambda>i. Some \<lparr>ms_idx = i, ms_start = real i * s, ms_end = real i * s + s,
                            ms_size = s\<rparr>) [0..<n]"
proof (rule nth_equalityI)
  show "length (msData (measureItems cfg False st)) = length (map (\<lambda>i. Some \<lparr>ms_idx = i, ms_start = real i * s, ms_end = real i * s + s,
                            ms_size = s\<rparr>) [0..<n])"
    using assms(2) by (simp add: length_measureItems)
next
  fix i assume "i < length (msData (measureItems cfg False st))"
  then have i: "i < itemCount cfg" by (simp add: length_measureItems)
  have cs: "\<And>j. cachedSize cfg st False j = s"
    using assms(1) by (simp add: cachedSize_def getItemSize_def)
  show "msData (measureItems cfg False st) ! i = map (\<lambda>i. Some \<lparr>ms_idx = i, ms_start = real i * s, ms_end = real i * s + s,
                            ms_size = s\<rparr>) [0..<n] ! i"
    using i assms(2) by (simp add: nth_measureItems cs)
qed

lemma kept_measureItems_fields:
  "hasDynamicSize (measureItems cfg u st) = hasDynamicSize st"
  "outerRect (measureItems cfg u st) = outerRect st"
  by (simp_all add: measureItems_def)

lemma resized_fields:
  "msData (state_of (resized cfg rect st)) =
     msData (measureItems cfg (hasDynamicSize st) (st\<lparr>outerRect := rect\<rparr>))"
  "hasDynamicSize (state_of (resized cfg rect st)) = hasDynamicSize st"
  "outerRect (state_of (resized cfg rect st)) = rect"
proof -
  define st2 where
    "st2 = measureItems cfg (hasDynamicSize (st\<lparr>outerRect := rect\<rparr>)) (st\<lparr>outerRect := rect\<rparr>)"
  have st2: "hasDynamicSize st2 = hasDynamicSize st" "outerRect st2 = rect"
    by (simp_all add: st2_def measureItems_def)
  obtain s3 where s3: "state_of (handleScroll cfg (scrollOffset st2) False False st2) = s3"
    by simp
  have k: "kept s3 = kept st2" using kept_handleScroll s3 by metis
  have "msData (state_of (resized cfg rect st)) = msData st2 \<and>
        hasDynamicSize (state_of (resized cfg rect st)) = hasDynamicSize st \<and>
        outerRect (state_of (resized cfg rect st)) = rect"
  proof (cases "handleScroll cfg (scrollOffset st2) False False st2")
    case (Threw e s)
    then have "s = s3" using s3 by (simp add: state_of_def)
    then show ?thesis
      using Threw k st2 unfolding resized_def Let_def st2_def [symmetric]
      by (simp add: state_of_def kept_def)
  next
    case (Returned s)
    then have "s = s3" using s3 by (simp add: state_of_def)
    then show ?thesis
      using Returned k st2 unfolding resized_def Let_def st2_def [symmetric]
      by (simp add: state_of_def kept_def scrollTo_def split: option.splits)
  qed
  then show "msData (state_of (resized cfg rect st)) =
     msData (measureItems cfg (hasDynamicSize st) (st\<lparr>outerRect := rect\<rparr>))"
    "hasDynamicSize (state_of (resized cfg rect st)) = hasDynamicSize st"
    "outerRect (state_of (resized cfg rect st)) = rect"
    by (simp_all add: st2_def)
qed

lemma mounted_fixed:
  assumes "itemSize cfg = FixedSize s" "itemCount cfg = n"
  shows "msData (mounted cfg rect) =
           map (\<lambda>i. Some \<lparr>ms_idx = i, ms_start = real i * s, ms_end = real i * s + s,
                            ms_size = s\<rparr>) [0..<n]"
    and "hasDynamicSize (mounted cfg rect) = False"
    and "outerRect (mounted cfg rect) = rect"
proof -
  have "hasDynamicSize (initial True True) = False" by (simp add: initial_def)
  then show "msData (mounted cfg rect) =
           map (\<lambda>i. Some \<lparr>ms_idx = i, ms_start = real i * s, ms_end = real i * s + s,
                            ms_size = s\<rparr>) [0..<n]"
    and "hasDynamicSize (mounted cfg rect) = False"
    and "outerRect (mounted cfg rect) = rect"
    by (simp_all add: mounted_def resized_fields msData_fixed [OF assms])
qed

lemma dense_map_Some: "dense (map (\<lambda>i. Some (f i)) xs)"
  by (simp add: dense_def list_all_iff)

lemma static_1000:
  "msData (mounted (staticList 1000 100) \<lparr>width = 300, height = 500\<rparr>) =
     map (\<lambda>i. Some \<lparr>ms_idx = i, ms_start = real i * 100, ms_end = real i * 100 + 100,
                      ms_size = 100\<rparr>) [0..<1000]"
  "hasDynamicSize (mounted (staticList 1000 100) \<lparr>width = 300, height = 500\<rparr>) = False"
  "outerSize (staticList 1000 100) (mounted (staticList 1000 100) \<lparr>width = 300, height = 500\<rparr>)
     = 500"
proof -
  have c: "itemSize (staticList 1000 100) = FixedSize 100"
    "itemCount (staticList 1000 100) = 1000" "horizontal (staticList 1000 100) = False"
    by (simp_all add: staticList_def)
  show "msData (mounted (staticList 1000 100) \<lparr>width = 300, height = 500\<rparr>) =
     map (\<lambda>i. Some \<lparr>ms_idx = i, ms_start = real i * 100, ms_end = real i * 100 + 100,
                      ms_size = 100\<rparr>) [0..<1000]"
    "hasDynamicSize (mounted (staticList 1000 100) \<lparr>width = 300, height = 500\<rparr>) = False"
    "outerSize (staticList 1000 100) (mounted (staticList 1000 100) \<lparr>width = 300, height = 500\<rparr>)
     = 500"
    by (simp_all add: mounted_fixed [OF c(1,2)] outerSize_def c(3))
qed

lemma getCalcData_static_250:
  "getCalcData (staticList 1000 100) (mounted (staticList 1000 100) \<lparr>width = 300, height = 500\<rparr>) 250
   = Inr \<lparr>oStart = 1, oStop = 8, vStart = 2, vStop = 7, margin = 100, innerSize = 99900\<rparr>"
proof -
  have c: "overscanCount (staticList 1000 100) = 1" by (simp add: staticList_def)
  show ?thesis
    unfolding getCalcData_def findStart_def static_1000 c
    by (simp add: arr_get_map_upt andThen_def field_def findNearestBinarySearch.simps
        scanStop.simps Let_def)
qed

lemma getCalcData_static_0:
  "getCalcData (staticList 1000 100) (mounted (staticList 1000 100) \<lparr>width = 300, height = 500\<rparr>) 0
   = Inr \<lparr>oStart = 0, oStop = 5, vStart = 0, vStop = 4, margin = 0, innerSize = 100000\<rparr>"
proof -
  have c: "overscanCount (staticList 1000 100) = 1" by (simp add: staticList_def)
  show ?thesis
    unfolding getCalcData_def findStart_def static_1000 c
    by (simp add: arr_get_map_upt andThen_def field_def findNearestBinarySearch.simps
        scanStop.simps Let_def)
qed

text \<open>
  Claim C2, as amended. With 1000 items of fixed size 100, a viewport of 500, one item of
  overscan and no dynamic size, the window at scroll offset 250 is: visible start 2,
  visible stop 7 (item 7 starts at 700, before the viewport's end at 750), overscan start
  1 and overscan stop 8.
\<close>

theorem window_at_250:
  "ranges (getCalcData (staticList 1000 100)
             (mounted (staticList 1000 100) \<lparr>width = 300, height = 500\<rparr>) 250)
     = Some (2, 7, 1, 8)"
  by (simp add: getCalcData_static_250 ranges_def)

text \<open>The window that claim C2 states for offset 250 (visible stop 6, overscan stop 7) is
  not the one computed.\<close>

theorem window_at_250_counterexample:
  "ranges (getCalcData (staticList 1000 100)
             (mounted (staticList 1000 100) \<lparr>width = 300, height = 500\<rparr>) 250)
     \<noteq> Some (2, 6, 1, 7)"
  by (simp add: getCalcData_static_250 ranges_def)

lemma two_items:
  "msData (mounted twoItems \<lparr>width = 300, height = 50\<rparr>) =
     [Some \<lparr>ms_idx = 0, ms_start = 0, ms_end = 100, ms_size = 100\<rparr>,
      Some \<lparr>ms_idx = 1, ms_start = 100, ms_end = 110, ms_size = 10\<rparr>]"
  "hasDynamicSize (mounted twoItems \<lparr>width = 300, height = 50\<rparr>) = False"
  "outerSize twoItems (mounted twoItems \<lparr>width = 300, height = 50\<rparr>) = 50"
proof -
  have i: "hasDynamicSize (initial True True) = False" by (simp add: initial_def)
  have c: "itemCount twoItems = 2" "horizontal twoItems = False"
    by (simp_all add: twoItems_def staticList_def)
  show "msData (mounted twoItems \<lparr>width = 300, height = 50\<rparr>) =
     [Some \<lparr>ms_idx = 0, ms_start = 0, ms_end = 100, ms_size = 100\<rparr>,
      Some \<lparr>ms_idx = 1, ms_start = 100, ms_end = 110, ms_size = 10\<rparr>]"
    unfolding mounted_def resized_fields i
    by (simp add: measureItems_def measureItem_def c numeral_2_eq_2 set_length_def
        initial_def array_set_def getMeasure_def arr_get_def getItemSize_def twoItems_def
        staticList_def)
  show "hasDynamicSize (mounted twoItems \<lparr>width = 300, height = 50\<rparr>) = False"
    by (simp add: mounted_def resized_fields i)
  show "outerSize twoItems (mounted twoItems \<lparr>width = 300, height = 50\<rparr>) = 50"
    by (simp add: mounted_def resized_fields outerSize_def c)
qed

lemma getCalcData_two_items:
  "getCalcData twoItems (mounted twoItems \<lparr>width = 300, height = 50\<rparr>) 0 =
     Inr \<lparr>oStart = 0, oStop = 0, vStart = 0, vStop = 0, margin = 0, innerSize = 200\<rparr>"
proof -
  have c: "overscanCount twoItems = 0" by (simp add: twoItems_def staticList_def)
  show ?thesis
    unfolding getCalcData_def findStart_def two_items c
    by (simp add: arr_get_def andThen_def field_def findNearestBinarySearch.simps
        scanStop.simps Let_def)
qed

section \<open>Properties of the window calculator\<close>

text \<open>
  Claim C10. In a store without holes, with at least one item and no negative start, the
  search for the visible start returns (no read of a missing entry throws) and its result
  is an index of the store, in both modes. In dynamic mode the scan stops at or before
  every index whose start is not below the next start, the start past the end counting as
  0: so it stops at the first such pair and no later than the last index.
\<close>

theorem findStart_in_bounds:
  assumes "dense (msData st)" "msData st \<noteq> []"
    and "\<forall>j. 0 \<le> j \<and> j < int (length (msData st)) \<longrightarrow> 0 \<le> startAt (msData st) j"
  shows "\<exists>r. findStart st x = Inr r \<and> 0 \<le> r \<and> r \<le> int (length (msData st)) - 1 \<and>
           (hasDynamicSize st \<longrightarrow>
              (\<forall>j. 0 \<le> j \<and> j < int (length (msData st)) \<and>
                    \<not> startAt (msData st) j < startAt (msData st) (j + 1) \<longrightarrow> r \<le> j))"
proof -
  have "0 \<le> startAt (msData st) (int (length (msData st)) - 1)"
    using assms(2,3) by simp
  from findStart_returns [OF assms(1,2) this, of x] obtain r where
    r: "findStart st x = Inr r" "0 \<le> r" "r \<le> int (length (msData st)) - 1" by blast
  have "r \<le> j" if dyn: "hasDynamicSize st" and j: "0 \<le> j" "j < int (length (msData st))"
    "\<not> startAt (msData st) j < startAt (msData st) (j + 1)" for j
  proof -
    have "scanStart (msData st) x 0 = Inr r" using r(1) dyn by (simp add: findStart_def)
    from scanStart_halts [OF this j(1,2) _ j(3)] show ?thesis by simp
  qed
  then show ?thesis using r by blast
qed

theorem findStart_in_bounds_witness:
  "findStart ((mounted twoItems \<lparr>width = 300, height = 50\<rparr>)\<lparr>hasDynamicSize := True\<rparr>) 105 = Inr 1 \<and>
   findStart (mounted twoItems \<lparr>width = 300, height = 50\<rparr>) 105 = Inr 1"
proof -
  let ?st = "mounted twoItems \<lparr>width = 300, height = 50\<rparr>"
  let ?dyn = "?st\<lparr>hasDynamicSize := True\<rparr>"
  have ms: "msData ?dyn = msData ?st" by simp
  have d: "dense (msData ?dyn)" "msData ?dyn \<noteq> []"
    by (simp_all add: two_items dense_def)
  have nn: "\<forall>j. 0 \<le> j \<and> j < int (length (msData ?dyn)) \<longrightarrow> 0 \<le> startAt (msData ?dyn) j"
  proof (intro allI impI)
    fix j assume "0 \<le> j \<and> j < int (length (msData ?dyn))"
    then have "j = 0 \<or> j = 1" by (auto simp: two_items)
    then show "0 \<le> startAt (msData ?dyn) j"
      by (auto simp: startAt_def arr_get_def two_items)
  qed
  from findStart_in_bounds [OF d nn, of 105] obtain r where
    r: "findStart ?dyn 105 = Inr r" "0 \<le> r" "r \<le> int (length (msData ?dyn)) - 1"
    "\<forall>j. 0 \<le> j \<and> j < int (length (msData ?dyn)) \<and>
          \<not> startAt (msData ?dyn) j < startAt (msData ?dyn) (j + 1) \<longrightarrow> r \<le> j"
    by auto
  have "findStart ?dyn 105 = Inr 1"
    by (simp add: findStart_def two_items scanStart.simps arr_get_def)
  moreover have "findStart ?st 105 = Inr 1"
    by (simp add: findStart_def two_items findNearestBinarySearch.simps arr_get_def field_def)
  ultimately show ?thesis using r by simp
qed



text \<open>
  Claim C1, as amended. For a store of \<open>itemCount > 0\<close> entries and any scroll offset, the
  total content size that the calculator reports (margin plus inner size) is: when the
  overscan range stops before the last item, the greater of \<open>end(overscanStop) +
  size(overscanStop)\<close> and the last item's end, so it is never below the last item's end;
  when the overscan range reaches the last item, the lesser of \<open>end(last) + size(last)\<close>
  and \<open>end(last)\<close>, which is the last item's end when its size is not negative. A result
  is reported under the conditions of claim C6.
\<close>

theorem getCalcData_total_size:
  assumes "length (msData st) = itemCount cfg" "0 < itemCount cfg"
  shows "(\<forall>cd. getCalcData cfg st x = Inr cd \<longrightarrow>
            (if oStop cd < int (itemCount cfg) - 1
             then margin cd + innerSize cd =
                    max (endAt (msData st) (oStop cd) + sizeAt (msData st) (oStop cd))
                        (endAt (msData st) (int (itemCount cfg) - 1))
                  \<and> endAt (msData st) (int (itemCount cfg) - 1) \<le> margin cd + innerSize cd
             else oStop cd = int (itemCount cfg) - 1
                  \<and> margin cd + innerSize cd =
                      min (endAt (msData st) (oStop cd) + sizeAt (msData st) (oStop cd))
                          (endAt (msData st) (int (itemCount cfg) - 1))
                  \<and> (0 \<le> sizeAt (msData st) (int (itemCount cfg) - 1) \<longrightarrow>
                       margin cd + innerSize cd = endAt (msData st) (int (itemCount cfg) - 1)))) \<and>
         (dense (msData st) \<and> 0 \<le> startAt (msData st) (int (itemCount cfg) - 1) \<and>
          (0 < overscanCount cfg \<or> startAt (msData st) 0 < x + outerSize cfg st) \<longrightarrow>
            (\<exists>cd. getCalcData cfg st x = Inr cd))"
proof -
  have ne: "msData st \<noteq> []" using assms by auto
  have part: "(if oStop cd < int (itemCount cfg) - 1
             then margin cd + innerSize cd =
                    max (endAt (msData st) (oStop cd) + sizeAt (msData st) (oStop cd))
                        (endAt (msData st) (int (itemCount cfg) - 1))
                  \<and> endAt (msData st) (int (itemCount cfg) - 1) \<le> margin cd + innerSize cd
             else oStop cd = int (itemCount cfg) - 1
                  \<and> margin cd + innerSize cd =
                      min (endAt (msData st) (oStop cd) + sizeAt (msData st) (oStop cd))
                          (endAt (msData st) (int (itemCount cfg) - 1))
                  \<and> (0 \<le> sizeAt (msData st) (int (itemCount cfg) - 1) \<longrightarrow>
                       margin cd + innerSize cd = endAt (msData st) (int (itemCount cfg) - 1)))"
    if cd: "getCalcData cfg st x = Inr cd" for cd
  proof -
    from getCalcData_Inr [OF cd] obtain mo mp ml where
      mo: "arr_get (msData st) (oStart cd) = Some mo" "margin cd = ms_start mo"
      and mp: "arr_get (msData st) (oStop cd) = Some mp"
      and ml: "arr_get (msData st) (int (length (msData st)) - 1) = Some ml"
      and inner: "innerSize cd =
       (if oStop cd < int (length (msData st)) - 1
        then max (ms_end mp + ms_size mp) (ms_end ml)
        else min (ms_end mp + ms_size mp) (ms_end ml)) - ms_start mo"
      by blast
    have le: "oStop cd \<le> int (itemCount cfg) - 1"
      using getCalcData_ranges [OF cd] assms(1) by simp
    show ?thesis
    proof (cases "oStop cd < int (itemCount cfg) - 1")
      case True
      then show ?thesis
        using mo mp ml inner assms(1) by (simp add: endAt_def sizeAt_def)
    next
      case False
      then have eq: "oStop cd = int (itemCount cfg) - 1" using le by simp
      then have "mp = ml" using mp ml assms(1) by simp
      then show ?thesis
        using False eq mo mp ml inner assms(1) by (simp add: endAt_def sizeAt_def)
    qed
  qed
  show ?thesis
    using part getCalcData_returns [of st cfg x] ne assms(1) by auto
qed

theorem getCalcData_total_size_witness:
  "reportedTotal (getCalcData (staticList 1000 100)
      (mounted (staticList 1000 100) \<lparr>width = 300, height = 500\<rparr>) 250) = Some 100000 \<and>
   endAt (msData (mounted (staticList 1000 100) \<lparr>width = 300, height = 500\<rparr>)) 999 = 100000 \<and>
   endAt (msData (mounted (staticList 1000 100) \<lparr>width = 300, height = 500\<rparr>)) 8
     + sizeAt (msData (mounted (staticList 1000 100) \<lparr>width = 300, height = 500\<rparr>)) 8 = 1000"
proof -
  let ?cfg = "staticList 1000 100"
  let ?st = "mounted ?cfg \<lparr>width = 300, height = 500\<rparr>"
  have n: "itemCount ?cfg = 1000" by (simp add: staticList_def)
  have len: "length (msData ?st) = itemCount ?cfg" "0 < itemCount ?cfg"
    by (simp_all add: static_1000 n)
  note inst = getCalcData_total_size [OF len, of 250]
  have e: "endAt (msData ?st) 999 = 100000" "endAt (msData ?st) 8 = 900"
    "sizeAt (msData ?st) 8 = 100"
    by (simp_all add: static_1000 endAt_def sizeAt_def arr_get_map_upt)
  from inst getCalcData_static_250 have
    "margin \<lparr>oStart = 1, oStop = 8, vStart = 2, vStop = 7, margin = 100, innerSize = 99900\<rparr>
      + innerSize \<lparr>oStart = 1, oStop = 8, vStart = 2, vStop = 7, margin = 100, innerSize = 99900\<rparr>
     = max (endAt (msData ?st) 8 + sizeAt (msData ?st) 8) (endAt (msData ?st) (int (itemCount ?cfg) - 1))"
    by (auto simp: n split: if_splits)
  then show ?thesis using e by (simp add: reportedTotal_def getCalcData_static_250 n)
qed

text \<open>Claim C1 as stated fails for two items of sizes 100 and 10 in a viewport of 50
  without overscan: at offset 0 the overscan range stops at item 0, before the last item,
  and the reported total is 200, above the last item's end 110, which is also the minimum
  that the claim names.\<close>

theorem getCalcData_total_size_counterexample:
  "getCalcData twoItems (mounted twoItems \<lparr>width = 300, height = 50\<rparr>) 0 =
     Inr \<lparr>oStart = 0, oStop = 0, vStart = 0, vStop = 0, margin = 0, innerSize = 200\<rparr> \<and>
   reportedTotal (getCalcData twoItems (mounted twoItems \<lparr>width = 300, height = 50\<rparr>) 0) = Some 200 \<and>
   endAt (msData (mounted twoItems \<lparr>width = 300, height = 50\<rparr>)) 1 = 110 \<and>
   min (endAt (msData (mounted twoItems \<lparr>width = 300, height = 50\<rparr>)) 0
          + sizeAt (msData (mounted twoItems \<lparr>width = 300, height = 50\<rparr>)) 0)
       (endAt (msData (mounted twoItems \<lparr>width = 300, height = 50\<rparr>)) 1) = 110"
  by (simp add: getCalcData_two_items reportedTotal_def two_items endAt_def sizeAt_def arr_get_def)

section \<open>Properties of the scroll navigator\<close>

text \<open>
  Claim C9. A call of \<open>scrollTo\<close> or \<open>scrollToItem\<close> with an options object whose offset,
  respectively index, is not a number returns with the whole state unchanged: no scroll,
  no completion callback, no frame or timer scheduled.
\<close>

theorem non_numeric_target_is_noop:
  "scrollToOffset now (OffsetOpts None smooth) cb st = st \<and>
   scrollToItem cfg now (ItemOpts None align smooth) ucb st = Returned st \<and>
   step cfg (CallScrollTo now (OffsetOpts None smooth) ucb) st = Returned st \<and>
   step cfg (CallScrollToItem now (ItemOpts None align smooth) ucb) st = Returned st"
  by (simp add: scrollToOffset_def scrollToItem_def)

text \<open>
  Claim C7. With the container attached, \<open>scrollTo\<close> with a numeric offset and without
  \<open>smooth\<close> (the number alone, or an options object) writes the offset to the container's
  scroll position in the same call, schedules no animation frame, and invokes the caller's
  completion callback in the same call; the scroll listener that runs next reads that
  position into \<open>scrollOffset\<close>.
\<close>

theorem scrollToOffset_immediate:
  assumes "outerRef st"
  shows "outerScrollPos (state_of (step cfg (CallScrollTo now (OffsetOpts (Some off) False) cb) st)) = off \<and>
         outerScrollPos (state_of (step cfg (CallScrollTo now (OffsetNum off) cb) st)) = off \<and>
         completed (state_of (step cfg (CallScrollTo now (OffsetOpts (Some off) False) cb) st)) =
           completed st @ (case cb of None \<Rightarrow> [] | Some k \<Rightarrow> [k]) \<and>
         completed (state_of (step cfg (CallScrollTo now (OffsetNum off) cb) st)) =
           completed st @ (case cb of None \<Rightarrow> [] | Some k \<Rightarrow> [k]) \<and>
         frames (state_of (step cfg (CallScrollTo now (OffsetOpts (Some off) False) cb) st)) = frames st \<and>
         (\<forall>st'. step cfg ScrollEvent
                  (state_of (step cfg (CallScrollTo now (OffsetOpts (Some off) False) cb) st))
                = Returned st' \<longrightarrow> scrollOffset st' = off)"
proof -
  let ?st1 = "state_of (step cfg (CallScrollTo now (OffsetOpts (Some off) False) cb) st)"
  have pos: "outerScrollPos ?st1 = off" "outerRef ?st1"
    using assms
    by (cases cb; simp add: scrollToOffset_def state_of_def invoke_def scrollTo_def complete_def)+
  have ev: "scrollOffset st' = off" if "step cfg ScrollEvent ?st1 = Returned st'" for st'
    using that pos
    by (auto simp: scrollHandler_def Let_def split: if_splits outcome.splits)
  show ?thesis
    using assms ev
    by (cases cb) (simp_all add: scrollToOffset_def state_of_def invoke_def scrollTo_def complete_def)
qed

theorem scrollToOffset_immediate_witness:
  "outerScrollPos (state_of (step (staticList 1000 100)
      (CallScrollTo 0 (OffsetOpts (Some 250) False) (Some 7)) (initial True True))) = 250 \<and>
   completed (state_of (step (staticList 1000 100)
      (CallScrollTo 0 (OffsetOpts (Some 250) False) (Some 7)) (initial True True))) = [7]"
proof -
  have "outerRef (initial True True)" by (simp add: initial_def)
  from scrollToOffset_immediate [OF this, of "staticList 1000 100" 0 250 "Some 7"]
  show ?thesis by (simp add: initial_def)
qed

section \<open>The dynamic-size flag\<close>

lemma state_of_simps [simp]:
  "state_of (Returned s) = s" "state_of (Threw e s) = s"
  by (simp_all add: state_of_def)

lemma dyn_handleScroll:
  "hasDynamicSize (state_of (handleScroll cfg x a ux st)) = hasDynamicSize st"
  using kept_handleScroll [of cfg x a ux st] by (simp add: kept_def)

lemma dyn_invoke: "hasDynamicSize (invoke cb st) = hasDynamicSize st"
  by (simp add: invoke_def complete_def split: option.splits Callback.splits)

lemma dyn_scrollToOffset: "hasDynamicSize (scrollToOffset now val cb st) = hasDynamicSize st"
  by (simp add: scrollToOffset_def Let_def dyn_invoke scrollTo_def requestFrame_def
      split: option.splits ScrollToArg.splits)

lemma dyn_runFrame: "hasDynamicSize (runFrame cfg now k st) = hasDynamicSize st"
  by (simp add: runFrame_def Let_def dyn_invoke scrollTo_def requestFrame_def
      split: option.splits)

lemma dyn_complete: "hasDynamicSize (complete cb st) = hasDynamicSize st"
  by (simp add: complete_def split: option.splits)

lemma dyn_scrollToItem:
  "hasDynamicSize (state_of (scrollToItem cfg now val cb st)) = hasDynamicSize st"
proof -
  define st1 where "st1 = (if hasDynamicSize st then measureItems cfg True st else st)"
  have m: "hasDynamicSize st1 = hasDynamicSize st"
    by (simp add: st1_def measureItems_def)
  have "hasDynamicSize (state_of (scrollToItem cfg now val cb st)) = hasDynamicSize st1
        \<or> hasDynamicSize (state_of (scrollToItem cfg now val cb st)) = hasDynamicSize st"
    unfolding scrollToItem_def Let_def st1_def [symmetric]
    by (simp add: dyn_scrollToOffset dyn_complete split: option.splits ScrollToItemArg.splits)
  then show ?thesis using m by auto
qed

lemma dyn_scrollHandler:
  "hasDynamicSize (state_of (scrollHandler cfg st)) = hasDynamicSize st"
proof (cases "outerScrollPos st = scrollOffset st")
  case True
  then show ?thesis by (simp add: scrollHandler_def)
next
  case False
  define ux where "ux = (case useIsScrolling cfg of
                             UxFn f \<Rightarrow> f \<bar>outerScrollPos st - scrollOffset st\<bar>
                           | UxBool b \<Rightarrow> b
                           | UxUndefined \<Rightarrow> False)"
  have h: "hasDynamicSize (state_of (handleScroll cfg (outerScrollPos st) True ux st))
             = hasDynamicSize st"
    by (rule dyn_handleScroll)
  show ?thesis
    using False h unfolding scrollHandler_def Let_def ux_def [symmetric]
    by (cases "handleScroll cfg (outerScrollPos st) True ux st") simp_all
qed

lemma dyn_observe:
  "hasDynamicSize (state_of (observe cfg p m st)) =
     (hasDynamicSize st \<or>
      (m \<noteq> 0 \<and> (m \<noteq> p_size p \<or> p_start p \<noteq> endAt (msData st) (int (p_idx p) - 1)) \<and>
       (\<exists>st'. observe cfg p m st = Returned st')))"
proof (cases "m \<noteq> 0 \<and> (m \<noteq> p_size p \<or> p_start p \<noteq> endAt (msData st) (int (p_idx p) - 1))")
  case False
  then show ?thesis by (auto simp: observe_def Let_def state_of_def endAt_def)
next
  case True
  define st2 where "st2 =
    (if int (p_idx p) < prevItemIdx st \<and> p_start p < p_scrollOffset p
     then scrollTo (p_scrollOffset p + m - p_size p) st else st)
    \<lparr>msData := array_set (msData (if int (p_idx p) < prevItemIdx st \<and> p_start p < p_scrollOffset p
     then scrollTo (p_scrollOffset p + m - p_size p) st else st)) (p_idx p)
       (getMeasure (msData (if int (p_idx p) < prevItemIdx st \<and> p_start p < p_scrollOffset p
     then scrollTo (p_scrollOffset p + m - p_size p) st else st)) (p_idx p) m)\<rparr>"
  have d2: "hasDynamicSize st2 = hasDynamicSize st" by (simp add: st2_def scrollTo_def)
  have eq: "observe cfg p m st =
     (case handleScroll cfg (p_scrollOffset p) (p_isScrolling p) (p_uxScrolling p) st2 of
        Threw e st3 \<Rightarrow> Threw e st3
      | Returned st3 \<Rightarrow> Returned (st3\<lparr>hasDynamicSize := True, prevItemIdx := int (p_idx p)\<rparr>))"
    using True unfolding observe_def Let_def st2_def by (simp add: endAt_def)
  have h: "hasDynamicSize (state_of (handleScroll cfg (p_scrollOffset p) (p_isScrolling p)
             (p_uxScrolling p) st2)) = hasDynamicSize st"
    using dyn_handleScroll d2 by simp
  show ?thesis
    using True h unfolding eq by (auto simp: state_of_def split: outcome.splits)
qed

lemma dyn_step:
  "hasDynamicSize (state_of (step cfg ev st)) =
     (hasDynamicSize st \<or>
      (\<exists>p m. ev = Observe p m \<and> m \<noteq> 0 \<and>
             (m \<noteq> p_size p \<or> p_start p \<noteq> endAt (msData st) (int (p_idx p) - 1)) \<and>
             (\<exists>st'. observe cfg p m st = Returned st')))"
proof (cases ev)
  case (Resize rect)
  then show ?thesis by (simp add: resized_fields)
next
  case (UserScroll pos)
  then show ?thesis using dyn_scrollHandler [of cfg "st\<lparr>outerScrollPos := pos\<rparr>"] by simp
next
  case ScrollEvent
  then show ?thesis using dyn_scrollHandler [of cfg st] by simp
next
  case (Observe p m)
  then show ?thesis by (simp add: dyn_observe)
next
  case (CallScrollTo now val cb)
  then show ?thesis by (simp add: dyn_scrollToOffset)
next
  case (CallScrollToItem now val cb)
  then show ?thesis by (simp add: dyn_scrollToItem)
next
  case (Frame now k)
  then show ?thesis by (simp add: dyn_runFrame)
next
  case (Timeout now)
  then show ?thesis
    using dyn_scrollToItem [of cfg now _ _ "st\<lparr>timeouts := tl (timeouts st)\<rparr>"]
    by (cases "timeouts st") auto
next
  case ResetIsScrolling
  then show ?thesis by (simp add: dyn_handleScroll)
next
  case ResetUserScroll
  then show ?thesis by simp
next
  case Cleanup
  then show ?thesis by (simp add: cleanup_def Let_def cancelResetIsScrolling_def cancelResetUserScroll_def
        split: option.splits)
qed

lemma dyn_run: "hasDynamicSize st \<Longrightarrow> hasDynamicSize (run cfg evs st)"
  by (induction evs arbitrary: st) (simp_all add: dyn_step)

text \<open>
  Claim C8. The flag \<open>hasDynamicSize\<close> is false in the initial state; no event turns it
  from true to false, so it stays true along every run of events; and an event that turns
  it on is a size probe's report of a non-zero size for which the measured size differs
  from the captured size or the captured start differs from the previous entry's end
  (the test of line 365).
\<close>

theorem hasDynamicSize_sticky:
  "\<not> hasDynamicSize (initial outer inner) \<and>
   (hasDynamicSize st \<longrightarrow> hasDynamicSize (state_of (step cfg ev st))) \<and>
   (hasDynamicSize st \<longrightarrow> hasDynamicSize (run cfg evs st)) \<and>
   (\<not> hasDynamicSize st \<and> hasDynamicSize (state_of (step cfg ev st)) \<longrightarrow>
      (\<exists>p m. ev = Observe p m \<and> m \<noteq> 0 \<and>
             (m \<noteq> p_size p \<or> p_start p \<noteq> endAt (msData st) (int (p_idx p) - 1))))"
proof -
  have "\<not> hasDynamicSize (initial outer inner)" by (simp add: initial_def)
  moreover have "hasDynamicSize st \<longrightarrow> hasDynamicSize (state_of (step cfg ev st))"
    by (simp add: dyn_step)
  moreover have "hasDynamicSize st \<longrightarrow> hasDynamicSize (run cfg evs st)"
    by (simp add: dyn_run)
  moreover have "\<not> hasDynamicSize st \<and> hasDynamicSize (state_of (step cfg ev st)) \<longrightarrow>
      (\<exists>p m. ev = Observe p m \<and> m \<noteq> 0 \<and>
             (m \<noteq> p_size p \<or> p_start p \<noteq> endAt (msData st) (int (p_idx p) - 1)))"
    using dyn_step [of cfg ev st] by blast
  ultimately show ?thesis by blast
qed

section \<open>Runs of the scroll handler that return\<close>

lemma collect_returns:
  "(\<And>x. x \<in> set xs \<Longrightarrow> \<exists>y. f x = Inr y) \<Longrightarrow> \<exists>ys. collect f xs = Inr ys"
proof (induction xs)
  case Nil
  then show ?case by simp
next
  case (Cons x xs)
  then obtain y ys where "f x = Inr y" "collect f xs = Inr ys" by (meson list.set_intros)
  then show ?case by simp
qed

lemma stickyAt_Inr:
  "0 \<le> k \<Longrightarrow> k < int (length xs) \<Longrightarrow> stickyAt xs k = Inr (int (xs ! nat k))"
  by (simp add: stickyAt_def)

lemma stickyIdx_cases:
  "stickyIdx xs v = Inr None \<and> xs = [] \<or>
   (\<exists>k. xs \<noteq> [] \<and> 0 \<le> k \<and> k < int (length xs) \<and>
        findNearestBinarySearch 0 (int (length xs) - 1) v (stickyAt xs) = Inr k \<and>
        stickyIdx xs v = Inr (Some (int (xs ! nat k))))"
proof (cases "xs = []")
  case True
  then show ?thesis by (simp add: stickyIdx_def)
next
  case False
  have "\<forall>i. 0 \<le> i \<and> i \<le> int (length xs) - 1 \<longrightarrow> (\<exists>v. stickyAt xs i = Inr v)"
    by (simp add: stickyAt_def)
  from fnbs_returns [OF this] obtain k where
    k: "findNearestBinarySearch 0 (int (length xs) - 1) v (stickyAt xs) = Inr k" by blast
  have rng: "0 \<le> k \<and> k < int (length xs)"
    using fnbs_range [OF k] False by (cases xs) auto
  then have "stickyIdx xs v = Inr (Some (int (xs ! nat k)))"
    using False k by (simp add: stickyIdx_def andThen_def stickyAt_def)
  then show ?thesis using False k rng by blast
qed

lemma render_returns:
  assumes "dense (msData st)" "0 \<le> oStart cd" "oStart cd < int (length (msData st))"
    and "oStop cd < int (length (msData st))"
  shows "\<exists>st'. render cfg x a ux cd st = Returned st'"
proof -
  let ?st1 = "st\<lparr>styleMargin := margin cd, styleSize := innerSize cd\<rparr>"
  have "\<exists>y. nextItem cfg ?st1 (margin cd) x a ux i = Inr y" if "i \<in> set [oStart cd..oStop cd]" for i
  proof -
    have "0 \<le> i" "i < int (length (msData st))" using that assms(2,4) by auto
    then obtain m where "arr_get (msData st) i = Some m"
      using dense_arr_get [OF assms(1)] by blast
    then show ?thesis by (simp add: nextItem_def)
  qed
  from collect_returns [of "[oStart cd..oStop cd]" "nextItem cfg ?st1 (margin cd) x a ux", OF this]
  obtain nxt where nxt: "collect (nextItem cfg ?st1 (margin cd) x a ux) [oStart cd..oStop cd] = Inr nxt"
    by blast
  from stickyIdx_cases [of "stickies_of cfg" "vStart cd"]
  show ?thesis
  proof (elim disjE conjE exE)
    assume "stickyIdx (stickies_of cfg) (vStart cd) = Inr None"
    then show ?thesis using nxt by (simp add: render_def Let_def)
  next
    fix k
    assume k: "0 \<le> k" "k < int (length (stickies_of cfg))"
      and s: "stickyIdx (stickies_of cfg) (vStart cd) = Inr (Some (int (stickies_of cfg ! nat k)))"
    let ?s = "int (stickies_of cfg ! nat k)"
    show ?thesis
    proof (cases "oStart cd > ?s")
      case False
      then show ?thesis using nxt s by (simp add: render_def Let_def)
    next
      case True
      then have "0 \<le> ?s" "?s < int (length (msData st))" using assms(3) by auto
      then obtain m where "arr_get (msData st) ?s = Some m"
        using dense_arr_get [OF assms(1)] by blast
      then show ?thesis using nxt s True by (simp add: render_def Let_def)
    qed
  qed
qed

lemma handleScroll_returns:
  assumes "dense (msData st)"
    and "itemCount cfg \<noteq> 0 \<longrightarrow> msData st \<noteq> [] \<and>
           0 \<le> startAt (msData st) (int (length (msData st)) - 1) \<and>
           (0 < overscanCount cfg \<or> startAt (msData st) 0 < x + outerSize cfg st)"
  shows "\<exists>st'. handleScroll cfg x a ux st = Returned st'"
proof (cases "\<not> innerRef st \<or> itemCount cfg = 0")
  case True
  then show ?thesis by (auto simp: handleScroll_def Let_def)
next
  case False
  let ?st1 = "loadFirst cfg x st"
  have k: "kept ?st1 = kept st" by (rule kept_loadFirst)
  then have ms: "msData ?st1 = msData st" by (simp add: kept_def)
  obtain cd where cd0: "getCalcData cfg st x = Inr cd"
    using getCalcData_returns [of st cfg x] assms False by auto
  then have cd: "getCalcData cfg ?st1 x = Inr cd" using getCalcData_kept [OF k] by simp
  note rng = getCalcData_ranges [OF cd0]
  obtain st2 where "render cfg x a ux cd ?st1 = Returned st2"
    using render_returns [of ?st1 cd cfg x a ux] assms(1) rng ms by auto
  then show ?thesis using False cd by (simp add: handleScroll_def Let_def)
qed

lemma dense_array_set:
  "dense ms \<Longrightarrow> i < length ms \<Longrightarrow> dense (array_set ms i v)"
  by (auto simp: dense_def array_set_def list_all_iff dest: set_update_subset_insert [THEN subsetD])

lemma static_3:
  "msData (mounted (staticList 3 100) \<lparr>width = 300, height = 500\<rparr>) =
     map (\<lambda>i. Some \<lparr>ms_idx = i, ms_start = real i * 100, ms_end = real i * 100 + 100,
                      ms_size = 100\<rparr>) [0..<3]"
  "hasDynamicSize (mounted (staticList 3 100) \<lparr>width = 300, height = 500\<rparr>) = False"
proof -
  have c: "itemSize (staticList 3 100) = FixedSize 100" "itemCount (staticList 3 100) = 3"
    by (simp_all add: staticList_def)
  show "msData (mounted (staticList 3 100) \<lparr>width = 300, height = 500\<rparr>) =
     map (\<lambda>i. Some \<lparr>ms_idx = i, ms_start = real i * 100, ms_end = real i * 100 + 100,
                      ms_size = 100\<rparr>) [0..<3]"
    "hasDynamicSize (mounted (staticList 3 100) \<lparr>width = 300, height = 500\<rparr>) = False"
    by (simp_all add: mounted_fixed [OF c])
qed

theorem hasDynamicSize_sticky_witness:
  "\<not> hasDynamicSize (mounted (staticList 3 100) \<lparr>width = 300, height = 500\<rparr>) \<and>
   hasDynamicSize (state_of (step (staticList 3 100)
      (Observe \<lparr>p_idx = 1, p_start = 100, p_size = 100, p_scrollOffset = 0,
                p_isScrolling = False, p_uxScrolling = False\<rparr> 120)
      (mounted (staticList 3 100) \<lparr>width = 300, height = 500\<rparr>))) \<and>
   hasDynamicSize (run (staticList 3 100)
      [Observe \<lparr>p_idx = 1, p_start = 100, p_size = 100, p_scrollOffset = 0,
                p_isScrolling = False, p_uxScrolling = False\<rparr> 120,
       Resize \<lparr>width = 300, height = 600\<rparr>, UserScroll 40, ResetUserScroll, Cleanup]
      (mounted (staticList 3 100) \<lparr>width = 300, height = 500\<rparr>))"
proof -
  let ?cfg = "staticList 3 100"
  let ?st0 = "mounted ?cfg \<lparr>width = 300, height = 500\<rparr>"
  let ?p = "\<lparr>p_idx = 1, p_start = 100, p_size = 100, p_scrollOffset = 0,
                p_isScrolling = False, p_uxScrolling = False\<rparr>"
  let ?st2 = "?st0\<lparr>msData := array_set (msData ?st0) (p_idx ?p)
                                  (getMeasure (msData ?st0) (p_idx ?p) 120)\<rparr>"
  have c: "itemCount ?cfg = 3" "overscanCount ?cfg = 1" by (simp_all add: staticList_def)
  have d: "dense (msData ?st2)"
    by (simp add: static_3 dense_array_set dense_map_Some)
  have ne: "msData ?st2 \<noteq> []" by (simp add: static_3 array_set_def)
  have ls: "0 \<le> startAt (msData ?st2) (int (length (msData ?st2)) - 1)"
    by (simp add: static_3 array_set_def startAt_def arr_get_def)
  obtain st3 where st3: "handleScroll ?cfg 0 False False ?st2 = Returned st3"
    using handleScroll_returns [of ?st2 ?cfg 0 False False] d ne ls c(2) by auto
  have "observe ?cfg ?p 120 ?st0 =
          Returned (st3\<lparr>hasDynamicSize := True, prevItemIdx := 1\<rparr>)"
    unfolding observe_def Let_def using st3
    by (simp add: mounted_def resized_fields initial_def)
  then have on: "hasDynamicSize (state_of (step ?cfg (Observe ?p 120) ?st0))" by simp
  from hasDynamicSize_sticky [of True True "state_of (step ?cfg (Observe ?p 120) ?st0)" ?cfg
      Cleanup "[Resize \<lparr>width = 300, height = 600\<rparr>, UserScroll 40, ResetUserScroll, Cleanup]"] on
  have "hasDynamicSize (run ?cfg
      [Resize \<lparr>width = 300, height = 600\<rparr>, UserScroll 40, ResetUserScroll, Cleanup]
      (state_of (step ?cfg (Observe ?p 120) ?st0)))" by blast
  then show ?thesis using on by (simp add: static_3)
qed

section \<open>Incremental loader\<close>

lemma loadFirst_fields:
  "prevVStop (loadFirst cfg x st) = prevVStop st"
  "userScroll (loadFirst cfg x st) = userScroll st"
  "items (loadFirst cfg x st) = items st"
  "loadMoreCalls (loadFirst cfg x st) = loadMoreCalls st @
     (if loadMore cfg \<and> \<not> isMounted st \<and> \<not> itemLoaded cfg 0
      then [\<lparr>startIndex = 0, stopIndex = loadMoreCount cfg - 1, loadIndex = 0,
             lm_scrollOffset = x, lm_userScroll = userScroll st\<rparr>]
      else [])"
  by (simp_all add: loadFirst_def)

lemma render_loader_fields:
  assumes "render cfg x a ux cd st = Returned st'"
  shows "loadMoreCalls st' = loadMoreCalls st \<and> prevVStop st' = prevVStop st \<and>
         userScroll st' = userScroll st"
  using assms
  by (auto simp: render_def Let_def split: sum.splits option.splits if_splits)

lemma notify_loader_fields:
  "prevVStop (notify cfg x ux cd st) = Some (vStop cd) \<and>
   loadMoreCalls (notify cfg x ux cd st) = loadMoreCalls st @
     (if loadMore cfg \<and> Some (vStop cd) \<noteq> prevVStop st
         \<and> \<not> itemLoaded cfg ((vStop cd + 1) div loadMoreCount cfg)
      then [\<lparr>startIndex = (vStop cd + 1) div loadMoreCount cfg * loadMoreCount cfg,
             stopIndex = (vStop cd + 1) div loadMoreCount cfg * loadMoreCount cfg
                           + loadMoreCount cfg - 1,
             loadIndex = (vStop cd + 1) div loadMoreCount cfg,
             lm_scrollOffset = x, lm_userScroll = userScroll st\<rparr>]
      else [])"
  by (simp add: notify_def Let_def resetIsScrolling_def resetUserScroll_def)

lemma handleScroll_Returned:
  assumes "handleScroll cfg x a ux st = Returned st'" "innerRef st" "itemCount cfg \<noteq> 0"
  shows "\<exists>cd st2. getCalcData cfg st x = Inr cd \<and>
           render cfg x a ux cd (loadFirst cfg x st) = Returned st2 \<and>
           st' = (if a then notify cfg x ux cd st2 else st2)"
proof -
  have k: "kept (loadFirst cfg x st) = kept st" by (rule kept_loadFirst)
  show ?thesis
    using assms getCalcData_kept [OF k, of cfg x]
    by (auto simp: handleScroll_def Let_def split: sum.splits outcome.splits if_splits)
qed


lemma arr_get_staticStore:
  "arr_get (staticStore n s) i =
     (if 0 \<le> i \<and> i < int n
      then Some \<lparr>ms_idx = nat i, ms_start = real (nat i) * s, ms_end = real (nat i) * s + s,
                 ms_size = s\<rparr>
      else None)"
  by (simp add: staticStore_def arr_get_map_upt)

lemma staticStore_props:
  "length (staticStore n s) = n" "dense (staticStore n s)"
  by (simp_all add: staticStore_def dense_map_Some)

text \<open>Windows of the list of 1000 items of size 100 in a viewport of 500 with one item of
  overscan, in static mode.\<close>

lemma window_static:
  assumes "msData st = staticStore 1000 100" "\<not> hasDynamicSize st" "outerSize cfg st = 500"
    and "overscanCount cfg = 1"
  shows "getCalcData cfg st 50 =
           Inr \<lparr>oStart = 0, oStop = 6, vStart = 0, vStop = 5, margin = 0, innerSize = 100000\<rparr>"
    and "getCalcData cfg st 150 =
           Inr \<lparr>oStart = 0, oStop = 7, vStart = 1, vStop = 6, margin = 0, innerSize = 100000\<rparr>"
    and "getCalcData cfg st 1000 =
           Inr \<lparr>oStart = 9, oStop = 15, vStart = 10, vStop = 14, margin = 900,
                innerSize = 99100\<rparr>"
    and "getCalcData cfg st 1100 =
           Inr \<lparr>oStart = 10, oStop = 16, vStart = 11, vStop = 15, margin = 1000,
                innerSize = 99000\<rparr>"
    and "getCalcData cfg st 6100 =
           Inr \<lparr>oStart = 60, oStop = 66, vStart = 61, vStop = 65, margin = 6000,
                innerSize = 94000\<rparr>"
  using assms(2) unfolding getCalcData_def findStart_def assms(1,3,4)
  by (simp_all add: arr_get_staticStore staticStore_props andThen_def field_def
      findNearestBinarySearch.simps scanStop.simps Let_def)

lemma handleScroll_loader:
  assumes "handleScroll cfg x a ux st = Returned st'" "innerRef st" "itemCount cfg \<noteq> 0"
  shows "\<exists>cd. getCalcData cfg st x = Inr cd \<and>
           prevVStop st' = (if a then Some (vStop cd) else prevVStop st) \<and>
           (\<not> a \<or> \<not> loadMore cfg \<longrightarrow> loadMoreCalls st' = loadMoreCalls (loadFirst cfg x st))"
proof -
  from handleScroll_Returned [OF assms] obtain cd st2 where
    cd: "getCalcData cfg st x = Inr cd"
    and r: "render cfg x a ux cd (loadFirst cfg x st) = Returned st2"
    and st': "st' = (if a then notify cfg x ux cd st2 else st2)"
    by blast
  note f = render_loader_fields [OF r] loadFirst_fields [of cfg x st]
  show ?thesis using cd st' f by (auto simp: notify_loader_fields)
qed

lemma mounted_static:
  assumes "itemSize cfg = FixedSize s" "0 \<le> s" "itemCount cfg = n" "0 < n"
    and "0 < overscanCount cfg"
  shows "kept (mounted cfg rect) = (False, staticStore n s, rect, 0, True, True, True, 0, True)"
    and "prevVStop (mounted cfg rect) = None"
    and "loadMoreCalls (mounted cfg rect) =
           (if loadMore cfg \<and> \<not> itemLoaded cfg 0
            then [\<lparr>startIndex = 0, stopIndex = loadMoreCount cfg - 1, loadIndex = 0,
                   lm_scrollOffset = 0, lm_userScroll = True\<rparr>]
            else [])"
proof -
  define i0 where "i0 = initial True True"
  define st2 where
    "st2 = measureItems cfg (hasDynamicSize (i0\<lparr>outerRect := rect\<rparr>)) (i0\<lparr>outerRect := rect\<rparr>)"
  have i0: "hasDynamicSize (i0\<lparr>outerRect := rect\<rparr>) = False"
    by (simp add: i0_def initial_def)
  have ms2: "msData st2 = staticStore n s"
    unfolding st2_def i0 staticStore_def by (rule msData_fixed [OF assms(1,3)])
  have k2: "kept st2 = (False, staticStore n s, rect, 0, False, True, True, 0, True)"
    using ms2 by (simp add: kept_def) (simp add: st2_def measureItems_def i0_def initial_def)
  have o2: "prevVStop st2 = None" "loadMoreCalls st2 = []" "onResizeCalls st2 = []"
    by (simp_all add: st2_def measureItems_def i0_def initial_def)
  have ls: "0 \<le> startAt (msData st2) (int (length (msData st2)) - 1)"
    using assms(2,4) by (simp add: ms2 staticStore_props startAt_def arr_get_staticStore)
  have ne: "msData st2 \<noteq> []" using assms(4) staticStore_props(1) [of n s] ms2 by auto
  obtain st3 where st3: "handleScroll cfg (scrollOffset st2) False False st2 = Returned st3"
    using handleScroll_returns [of st2 cfg "scrollOffset st2" False False] ls ne assms(5)
    by (auto simp: ms2 staticStore_props)
  have k3: "kept st3 = kept st2" using kept_handleScroll [of cfg "scrollOffset st2" False False st2] st3
    by simp
  have in2: "innerRef st2" "scrollOffset st2 = 0" "\<not> isMounted st2" "userScroll st2"
    using k2 by (simp_all add: kept_def)
  from handleScroll_loader [OF st3 in2(1)] assms(3,4) have
    o3: "prevVStop st3 = None" "loadMoreCalls st3 = loadMoreCalls (loadFirst cfg 0 st2)"
    using o2 in2 by auto
  have res: "resized cfg rect i0 =
     Returned ((if \<not> hasDynamicSize st3 \<and> \<not> width (outerRect i0) = width rect then
                  (case resizeRatio (lastEnd (msData st3)) (lastEnd (msData i0)) of
                     Some r \<Rightarrow> scrollTo (scrollOffset st3 * r) st3
                   | None \<Rightarrow> scrollTo 0 st3)
                else st3)\<lparr>isMounted := True\<rparr>)"
    unfolding resized_def Let_def st2_def [symmetric] using st3 k3 k2
    by (simp add: kept_def scrollTo_def split: option.splits)
  have k: "kept (mounted cfg rect) = (False, staticStore n s, rect, 0, True, True, True, 0, True)"
    unfolding mounted_def i0_def [symmetric] res using k3 k2
    by (simp add: kept_def scrollTo_def split: option.splits)
  have o: "prevVStop (mounted cfg rect) = None"
    "loadMoreCalls (mounted cfg rect) = loadMoreCalls (loadFirst cfg 0 st2)"
    unfolding mounted_def i0_def [symmetric] res using o3
    by (simp_all add: scrollTo_def split: option.splits)
  show "kept (mounted cfg rect) = (False, staticStore n s, rect, 0, True, True, True, 0, True)"
    by (rule k)
  show "prevVStop (mounted cfg rect) = None" by (rule o(1))
  show "loadMoreCalls (mounted cfg rect) =
           (if loadMore cfg \<and> \<not> itemLoaded cfg 0
            then [\<lparr>startIndex = 0, stopIndex = loadMoreCount cfg - 1, loadIndex = 0,
                   lm_scrollOffset = 0, lm_userScroll = True\<rparr>]
            else [])"
    using o(2) o2 in2 by (simp add: loadFirst_fields)
qed

lemma notify_kept_items:
  "items (notify cfg x ux cd st) = items st"
  "styleMargin (notify cfg x ux cd st) = styleMargin st"
  "styleSize (notify cfg x ux cd st) = styleSize st"
  by (simp_all add: notify_def Let_def resetIsScrolling_def resetUserScroll_def)

lemma getCalcData_cong:
  "msData st' = msData st \<Longrightarrow> hasDynamicSize st' = hasDynamicSize st \<Longrightarrow>
   outerRect st' = outerRect st \<Longrightarrow> getCalcData cfg st' x = getCalcData cfg st x"
  by (simp add: getCalcData_def findStart_def outerSize_def)

text \<open>A scroll by the user of the list of 1000 items of size 100 in a viewport of
  height 500, mounted and in static mode.\<close>

lemma scroll_static:
  assumes k: "kept st = (False, staticStore 1000 100, \<lparr>width = w, height = 500\<rparr>, off0, True,
                         True, True, p0, True)"
    and cfg: "itemCount cfg = 1000" "horizontal cfg = False" "overscanCount cfg = 1"
      "useIsScrolling cfg = UxUndefined"
    and pos: "pos \<noteq> off0"
  shows "\<exists>st' cd. handleScroll cfg pos True False (st\<lparr>outerScrollPos := pos\<rparr>) = Returned st' \<and>
           state_of (step cfg (UserScroll pos) st) = st'\<lparr>scrollOffset := pos\<rparr> \<and>
           innerRef (st\<lparr>outerScrollPos := pos\<rparr>) \<and>
           getCalcData cfg st pos = Inr cd \<and>
           getCalcData cfg (st\<lparr>outerScrollPos := pos\<rparr>) pos = Inr cd \<and>
           kept (st'\<lparr>scrollOffset := pos\<rparr>) =
             (False, staticStore 1000 100, \<lparr>width = w, height = 500\<rparr>, pos, True, True, True,
              pos, True) \<and>
           prevVStop (st'\<lparr>scrollOffset := pos\<rparr>) = Some (vStop cd) \<and>
           loadMoreCalls (st'\<lparr>scrollOffset := pos\<rparr>) = loadMoreCalls st @
             (if loadMore cfg \<and> Some (vStop cd) \<noteq> prevVStop st
                 \<and> \<not> itemLoaded cfg ((vStop cd + 1) div loadMoreCount cfg)
              then [\<lparr>startIndex = (vStop cd + 1) div loadMoreCount cfg * loadMoreCount cfg,
                     stopIndex = (vStop cd + 1) div loadMoreCount cfg * loadMoreCount cfg
                                   + loadMoreCount cfg - 1,
                     loadIndex = (vStop cd + 1) div loadMoreCount cfg,
                     lm_scrollOffset = pos, lm_userScroll = True\<rparr>]
              else [])"
proof -
  let ?st = "st\<lparr>outerScrollPos := pos\<rparr>"
  have f: "msData st = staticStore 1000 100" "\<not> hasDynamicSize st" "innerRef st" "outerRef st"
    "isMounted st" "userScroll st" "scrollOffset st = off0"
    "outerRect st = \<lparr>width = w, height = 500\<rparr>"
    using k by (simp_all add: kept_def)
  have k': "kept ?st = (False, staticStore 1000 100, \<lparr>width = w, height = 500\<rparr>, off0, True,
                         True, True, pos, True)"
    using k by (simp add: kept_def)
  have ls: "0 \<le> startAt (msData ?st) (int (length (msData ?st)) - 1)"
    by (simp add: f staticStore_props startAt_def arr_get_staticStore)
  have ne: "msData ?st \<noteq> []" using staticStore_props(1) [of 1000 100] f(1) by auto
  obtain st' where st': "handleScroll cfg pos True False ?st = Returned st'"
    using handleScroll_returns [of ?st cfg pos True False] ls ne cfg(3)
    by (auto simp: f staticStore_props)
  have k3: "kept st' = kept ?st" using kept_handleScroll [of cfg pos True False ?st] st' by simp
  have stp: "state_of (step cfg (UserScroll pos) st) = st'\<lparr>scrollOffset := pos\<rparr>"
    using f pos st' cfg(4) by (simp add: scrollHandler_def Let_def)
  from handleScroll_Returned [OF st'] f(3) cfg(1) obtain cd st2 where
    cd: "getCalcData cfg ?st pos = Inr cd"
    and r: "render cfg pos True False cd (loadFirst cfg pos ?st) = Returned st2"
    and e: "st' = notify cfg pos False cd st2"
    by auto
  have cd0: "getCalcData cfg st pos = Inr cd"
    using cd getCalcData_cong [of ?st st cfg pos] by simp
  note l = render_loader_fields [OF r] loadFirst_fields [of cfg pos ?st]
  have pv: "prevVStop st' = Some (vStop cd)" using e by (simp add: notify_loader_fields)
  have lm: "loadMoreCalls st' = loadMoreCalls st @
             (if loadMore cfg \<and> Some (vStop cd) \<noteq> prevVStop st
                 \<and> \<not> itemLoaded cfg ((vStop cd + 1) div loadMoreCount cfg)
              then [\<lparr>startIndex = (vStop cd + 1) div loadMoreCount cfg * loadMoreCount cfg,
                     stopIndex = (vStop cd + 1) div loadMoreCount cfg * loadMoreCount cfg
                                   + loadMoreCount cfg - 1,
                     loadIndex = (vStop cd + 1) div loadMoreCount cfg,
                     lm_scrollOffset = pos, lm_userScroll = True\<rparr>]
              else [])"
    using e l f by (simp add: notify_loader_fields)
  have kk: "kept (st'\<lparr>scrollOffset := pos\<rparr>) =
             (False, staticStore 1000 100, \<lparr>width = w, height = 500\<rparr>, pos, True, True, True,
              pos, True)"
    using k3 k' by (simp add: kept_def)
  show ?thesis using st' stp f(3) cd cd0 kk pv lm by simp
qed





section \<open>Sticky resolver\<close>

lemma stickyIdx_greatest:
  assumes "sorted xs" "s \<in> set xs" "int s \<le> v" "\<forall>t\<in>set xs. int t \<le> v \<longrightarrow> t \<le> s"
  shows "stickyIdx xs v = Inr (Some (int s))"
proof -
  let ?H = "int (length xs) - 1"
  let ?f = "\<lambda>i. int (xs ! nat i)"
  have ne: "xs \<noteq> []" using assms(2) by auto
  from stickyIdx_cases [of xs v] ne obtain k where
    k: "0 \<le> k" "k < int (length xs)"
      "findNearestBinarySearch 0 ?H v (stickyAt xs) = Inr k"
      "stickyIdx xs v = Inr (Some (int (xs ! nat k)))"
    by auto
  have g: "\<forall>i. 0 \<le> i \<and> i \<le> ?H \<longrightarrow> stickyAt xs i = Inr (?f i)"
    by (simp add: stickyAt_def)
  have mono: "\<forall>i j. 0 \<le> i \<and> i \<le> j \<and> j \<le> ?H \<longrightarrow> ?f i \<le> ?f j"
  proof (intro allI impI)
    fix i j assume "0 \<le> i \<and> i \<le> j \<and> j \<le> ?H"
    then have "nat i \<le> nat j" "nat j < length xs" by auto
    then show "?f i \<le> ?f j" using assms(1) by (simp add: sorted_nth_mono)
  qed
  have b1: "\<forall>i. 0 \<le> i \<and> i < (0::int) \<longrightarrow> ?f i \<le> v" by simp
  have b2: "\<forall>i. ?H < i \<and> i \<le> ?H \<longrightarrow> v < ?f i" by simp
  have "(0::int) \<le> ?H + 1" by simp
  from fnbs_greatest [OF k(3) g mono _ this _ b1 b2]
  have gr: "\<forall>i. 0 \<le> i \<and> i \<le> ?H \<and> ?f i \<le> v \<longrightarrow> ?f i \<le> ?f k"
    and ex: "(\<exists>i. 0 \<le> i \<and> i \<le> ?H \<and> ?f i \<le> v) \<longrightarrow> ?f k \<le> v"
    by auto
  obtain j where j: "j < length xs" "xs ! j = s" using assms(2) by (auto simp: in_set_conv_nth)
  then have fj: "0 \<le> int j \<and> int j \<le> ?H \<and> ?f (int j) \<le> v" using assms(3) by auto
  have "int s \<le> ?f k" using gr fj j by fastforce
  moreover have "?f k \<le> v" using ex fj by blast
  moreover have "xs ! nat k \<in> set xs" using k(1,2) by simp
  ultimately have "xs ! nat k = s" using assms(4) by fastforce
  then show ?thesis using k(4) by simp
qed

lemma nextItem_cong:
  "msData st' = msData st \<Longrightarrow> outerRect st' = outerRect st \<Longrightarrow>
   nextItem cfg st' = nextItem cfg st"
  by (intro ext) (simp add: nextItem_def split: option.splits)

lemma collect_nextItem_index:
  "collect (nextItem cfg st mg x a ux) xs = Inr ys \<Longrightarrow> map it_index ys = map nat xs"
proof (induction xs arbitrary: ys)
  case Nil
  then show ?case by simp
next
  case (Cons i xs)
  then show ?case
    by (auto simp: nextItem_def split: sum.splits option.splits)
qed

lemma render_sticky:
  assumes "collect (nextItem cfg st (margin cd) x a ux) [oStart cd..oStop cd] = Inr natural"
    and "stickyIdx (stickies_of cfg) (vStart cd) = Inr (Some (int s))"
    and "int s < oStart cd" "arr_get (msData st) (int s) = Some m"
  shows "\<exists>st'. render cfg x a ux cd st = Returned st' \<and>
           styleMargin st' = margin cd - ms_size m \<and>
           styleSize st' = innerSize cd + ms_size m \<and>
           items st' =
             (if shouldUpdate cfg (items st)
                   (\<lparr>it_index = s, it_start = 0, it_size = ms_size m,
                     it_width = width (outerRect st), it_isScrolling = ux,
                     it_isSticky = True, it_measureRef = None\<rparr> # natural)
              then \<lparr>it_index = s, it_start = 0, it_size = ms_size m,
                     it_width = width (outerRect st), it_isScrolling = ux,
                     it_isSticky = True, it_measureRef = None\<rparr> # natural
              else items st)"
proof -
  let ?st1 = "st\<lparr>styleMargin := margin cd, styleSize := innerSize cd\<rparr>"
  have n: "nextItem cfg ?st1 = nextItem cfg st" by (rule nextItem_cong) simp_all
  show ?thesis
    unfolding render_def Let_def n using assms by simp
qed

text \<open>
  Claim C4, as amended. Let the sticky indices be ascending and let \<open>s\<close> be the greatest
  of them at or before the visible start. When \<open>s\<close> lies strictly before the overscan
  window's start, \<open>handleScroll\<close> publishes the item list with the item \<open>s\<close> in front of
  the items of the overscan window, with \<open>start = 0\<close> and \<open>isSticky = true\<close>; the published
  leading margin is the window's margin reduced by that item's size, and the published
  inner size is the window's inner size increased by it, so their sum is unchanged.
\<close>

theorem sticky_item_prepended:
  assumes "innerRef st" "itemCount cfg \<noteq> 0" "dense (msData st)"
    and "getCalcData cfg st x = Inr cd"
    and "sorted (stickies_of cfg)"
    and "s \<in> set (stickies_of cfg)" "int s \<le> vStart cd"
    and "\<forall>t\<in>set (stickies_of cfg). int t \<le> vStart cd \<longrightarrow> t \<le> s"
    and "int s < oStart cd"
  shows "\<exists>st' m natural.
           handleScroll cfg x isScrolling ux st = Returned st' \<and>
           arr_get (msData st) (int s) = Some m \<and>
           collect (nextItem cfg st (margin cd) x isScrolling ux) [oStart cd..oStop cd]
             = Inr natural \<and>
           map it_index natural = map nat [oStart cd..oStop cd] \<and>
           styleMargin st' = margin cd - ms_size m \<and>
           styleSize st' = innerSize cd + ms_size m \<and>
           items st' =
             (if shouldUpdate cfg (items st)
                   (\<lparr>it_index = s, it_start = 0, it_size = ms_size m,
                     it_width = width (outerRect st), it_isScrolling = ux,
                     it_isSticky = True, it_measureRef = None\<rparr> # natural)
              then \<lparr>it_index = s, it_start = 0, it_size = ms_size m,
                     it_width = width (outerRect st), it_isScrolling = ux,
                     it_isSticky = True, it_measureRef = None\<rparr> # natural
              else items st)"
proof -
  let ?st1 = "loadFirst cfg x st"
  have k: "kept ?st1 = kept st" by (rule kept_loadFirst)
  then have same: "msData ?st1 = msData st" "outerRect ?st1 = outerRect st"
    by (simp_all add: kept_def)
  have it: "items ?st1 = items st" by (rule loadFirst_fields)
  have cd1: "getCalcData cfg ?st1 x = Inr cd" using getCalcData_kept [OF k] assms(4) by simp
  note rng = getCalcData_ranges [OF assms(4)]
  have "\<exists>y. nextItem cfg st (margin cd) x isScrolling ux i = Inr y"
    if "i \<in> set [oStart cd..oStop cd]" for i
  proof -
    have "0 \<le> i" "i < int (length (msData st))" using that rng by auto
    then obtain m where "arr_get (msData st) i = Some m"
      using dense_arr_get [OF assms(3)] by blast
    then show ?thesis by (simp add: nextItem_def)
  qed
  from collect_returns [of "[oStart cd..oStop cd]"
      "nextItem cfg st (margin cd) x isScrolling ux", OF this]
  obtain natural where
    nt: "collect (nextItem cfg st (margin cd) x isScrolling ux) [oStart cd..oStop cd]
            = Inr natural"
    by blast
  have "0 \<le> int s" "int s < int (length (msData st))" using assms(9) rng by auto
  then obtain m where m: "arr_get (msData st) (int s) = Some m"
    using dense_arr_get [OF assms(3)] by blast
  have sticky: "stickyIdx (stickies_of cfg) (vStart cd) = Inr (Some (int s))"
    by (rule stickyIdx_greatest [OF assms(5,6,7,8)])
  have nat1: "collect (nextItem cfg ?st1 (margin cd) x isScrolling ux) [oStart cd..oStop cd]
            = Inr natural"
    using nt nextItem_cong [OF same] by simp
  have m1: "arr_get (msData ?st1) (int s) = Some m" using m same by simp
  from render_sticky [OF nat1 sticky assms(9) m1] obtain st2 where
    st2: "render cfg x isScrolling ux cd ?st1 = Returned st2"
      "styleMargin st2 = margin cd - ms_size m" "styleSize st2 = innerSize cd + ms_size m"
      "items st2 =
             (if shouldUpdate cfg (items st)
                   (\<lparr>it_index = s, it_start = 0, it_size = ms_size m,
                     it_width = width (outerRect st), it_isScrolling = ux,
                     it_isSticky = True, it_measureRef = None\<rparr> # natural)
              then \<lparr>it_index = s, it_start = 0, it_size = ms_size m,
                     it_width = width (outerRect st), it_isScrolling = ux,
                     it_isSticky = True, it_measureRef = None\<rparr> # natural
              else items st)"
    using it same by auto
  have hs: "handleScroll cfg x isScrolling ux st =
              Returned (if isScrolling then notify cfg x ux cd st2 else st2)"
    using assms(1,2) cd1 st2(1) by (simp add: handleScroll_def Let_def)
  show ?thesis
    using hs m nt collect_nextItem_index [OF nt] st2(2,3,4)
    by (cases isScrolling) (simp_all add: notify_kept_items)
qed

lemma stickyOptions_fields:
  "itemSize stickyOptions = FixedSize 100" "itemCount stickyOptions = 1000"
  "horizontal stickyOptions = False" "overscanCount stickyOptions = 1"
  "useIsScrolling stickyOptions = UxUndefined" "stickies_of stickyOptions = [0, 50, 100]"
  "shouldUpdate stickyOptions prev nxt"
  by (simp_all add: stickyOptions_def staticList_def stickies_of_def)

lemma sticky_mounted:
  "kept (mounted stickyOptions \<lparr>width = 300, height = 500\<rparr>) =
     (False, staticStore 1000 100, \<lparr>width = 300, height = 500\<rparr>, 0, True, True, True, 0, True)"
  using mounted_static [of stickyOptions 100 1000 "\<lparr>width = 300, height = 500\<rparr>"]
  by (simp_all add: stickyOptions_fields)

theorem sticky_item_prepended_witness:
  "styleMargin (run stickyOptions [UserScroll 6100]
      (mounted stickyOptions \<lparr>width = 300, height = 500\<rparr>)) = 5900 \<and>
   styleSize (run stickyOptions [UserScroll 6100]
      (mounted stickyOptions \<lparr>width = 300, height = 500\<rparr>)) = 94100 \<and>
   map it_index (items (run stickyOptions [UserScroll 6100]
      (mounted stickyOptions \<lparr>width = 300, height = 500\<rparr>))) =
     [50, 60, 61, 62, 63, 64, 65, 66] \<and>
   hd (items (run stickyOptions [UserScroll 6100]
      (mounted stickyOptions \<lparr>width = 300, height = 500\<rparr>))) =
     \<lparr>it_index = 50, it_start = 0, it_size = 100, it_width = 300, it_isScrolling = False,
      it_isSticky = True, it_measureRef = None\<rparr>"
proof -
  let ?cfg = stickyOptions
  let ?base = "mounted ?cfg \<lparr>width = 300, height = 500\<rparr>"
  let ?st = "?base\<lparr>outerScrollPos := 6100\<rparr>"
  note c = stickyOptions_fields
  have p: "(6100::real) \<noteq> 0" by simp
  from scroll_static [OF sticky_mounted c(2,3,4,5) p] obtain s1 cd where
    s1: "handleScroll ?cfg 6100 True False ?st = Returned s1"
      "state_of (step ?cfg (UserScroll 6100) ?base) = s1\<lparr>scrollOffset := 6100\<rparr>"
      "innerRef ?st" "getCalcData ?cfg ?st 6100 = Inr cd"
    by blast
  have w: "msData ?st = staticStore 1000 100" "\<not> hasDynamicSize ?st"
    "outerSize ?cfg ?st = 500" "outerRect ?st = \<lparr>width = 300, height = 500\<rparr>"
    using sticky_mounted by (simp_all add: kept_def outerSize_def c)
  have cd: "cd = \<lparr>oStart = 60, oStop = 66, vStart = 61, vStop = 65, margin = 6000,
                   innerSize = 94000\<rparr>"
    using s1(4) window_static(5) [OF w(1,2,3) c(4)] by auto
  have n0: "itemCount ?cfg \<noteq> 0" by (simp add: c)
  have d: "dense (msData ?st)" by (simp add: w staticStore_props)
  have so: "sorted (stickies_of ?cfg)" by (simp add: c)
  have mem: "50 \<in> set (stickies_of ?cfg)" by (simp add: c)
  have le: "int 50 \<le> vStart cd" by (simp add: cd)
  have gr: "\<forall>t\<in>set (stickies_of ?cfg). int t \<le> vStart cd \<longrightarrow> t \<le> 50"
    by (simp add: c cd)
  have lt: "int 50 < oStart cd" by (simp add: cd)
  from sticky_item_prepended [OF s1(3) n0 d s1(4) so mem le gr lt, of True False]
  obtain st' m natural where
    r: "handleScroll ?cfg 6100 True False ?st = Returned st'"
      "arr_get (msData ?st) (int 50) = Some m"
      "map it_index natural = map nat [oStart cd..oStop cd]"
      "styleMargin st' = margin cd - ms_size m"
      "styleSize st' = innerSize cd + ms_size m"
      "items st' = \<lparr>it_index = 50, it_start = 0, it_size = ms_size m,
                     it_width = width (outerRect ?st), it_isScrolling = False,
                     it_isSticky = True, it_measureRef = None\<rparr> # natural"
    by (auto simp: c(7))
  have m: "ms_size m = 100" using r(2) by (auto simp: w arr_get_staticStore)
  have e: "st' = s1" using r(1) s1(1) by simp
  have idx: "map nat [oStart cd..oStop cd] = [60, 61, 62, 63, 64, 65, 66]"
    by (simp add: cd upto.simps)
  show ?thesis using r(3,4,5,6) m e s1(2) idx w(4) by (simp add: cd)
qed

text \<open>Claim C4 as stated fails in its own scenario: the published leading margin is the
  window's margin 6000 reduced by the sticky item's size 100, not inflated by it; the
  inner size is increased.\<close>

theorem sticky_item_prepended_counterexample:
  "getCalcData stickyOptions (mounted stickyOptions \<lparr>width = 300, height = 500\<rparr>) 6100 =
     Inr \<lparr>oStart = 60, oStop = 66, vStart = 61, vStop = 65, margin = 6000, innerSize = 94000\<rparr> \<and>
   sizeAt (msData (mounted stickyOptions \<lparr>width = 300, height = 500\<rparr>)) 50 = 100 \<and>
   styleMargin (run stickyOptions [UserScroll 6100]
      (mounted stickyOptions \<lparr>width = 300, height = 500\<rparr>)) = 5900 \<and>
   styleSize (run stickyOptions [UserScroll 6100]
      (mounted stickyOptions \<lparr>width = 300, height = 500\<rparr>)) = 94100"
proof -
  let ?cfg = stickyOptions
  let ?base = "mounted ?cfg \<lparr>width = 300, height = 500\<rparr>"
  let ?st = "?base\<lparr>outerScrollPos := 6100\<rparr>"
  note c = stickyOptions_fields
  have p: "(6100::real) \<noteq> 0" by simp
  from scroll_static [OF sticky_mounted c(2,3,4,5) p] obtain s1 cd where
    s1: "handleScroll ?cfg 6100 True False ?st = Returned s1"
      "state_of (step ?cfg (UserScroll 6100) ?base) = s1\<lparr>scrollOffset := 6100\<rparr>"
      "innerRef ?st" "getCalcData ?cfg ?st 6100 = Inr cd"
    by blast
  have w0: "msData ?base = staticStore 1000 100" "\<not> hasDynamicSize ?base"
    "outerSize ?cfg ?base = 500"
    using sticky_mounted by (simp_all add: kept_def outerSize_def c)
  have w: "msData ?st = staticStore 1000 100" "\<not> hasDynamicSize ?st"
    "outerSize ?cfg ?st = 500"
    using w0 by (simp_all add: outerSize_def c)
  have cd: "cd = \<lparr>oStart = 60, oStop = 66, vStart = 61, vStop = 65, margin = 6000,
                   innerSize = 94000\<rparr>"
    using s1(4) window_static(5) [OF w c(4)] by auto
  have n0: "itemCount ?cfg \<noteq> 0" by (simp add: c)
  from handleScroll_Returned [OF s1(1,3) n0] s1(4) obtain st2 where
    st2: "render ?cfg 6100 True False cd (loadFirst ?cfg 6100 ?st) = Returned st2"
      "s1 = notify ?cfg 6100 False cd st2"
    by auto
  let ?l = "loadFirst ?cfg 6100 ?st"
  have kl: "kept ?l = kept ?st" by (rule kept_loadFirst)
  then have ml: "msData ?l = staticStore 1000 100" using w(1) by (simp add: kept_def)
  have "\<exists>y. nextItem ?cfg ?l (margin cd) 6100 True False i = Inr y"
    if "i \<in> set [oStart cd..oStop cd]" for i
    using that by (auto simp: nextItem_def ml arr_get_staticStore cd)
  from collect_returns [of "[oStart cd..oStop cd]" "nextItem ?cfg ?l (margin cd) 6100 True False",
      OF this]
  obtain natural where
    nt: "collect (nextItem ?cfg ?l (margin cd) 6100 True False) [oStart cd..oStop cd] = Inr natural"
    by blast
  have sticky: "stickyIdx (stickies_of ?cfg) (vStart cd) = Inr (Some (int 50))"
    by (rule stickyIdx_greatest) (simp_all add: c cd)
  have m: "arr_get (msData ?l) (int 50) =
             Some \<lparr>ms_idx = 50, ms_start = 5000, ms_end = 5100, ms_size = 100\<rparr>"
    by (simp add: ml arr_get_staticStore)
  have lt: "int 50 < oStart cd" by (simp add: cd)
  from render_sticky [OF nt sticky lt m] st2(1)
  have "styleMargin st2 = 5900 \<and> styleSize st2 = 94100" by (auto simp: cd)
  then have "styleMargin (s1\<lparr>scrollOffset := 6100\<rparr>) = 5900 \<and>
             styleSize (s1\<lparr>scrollOffset := 6100\<rparr>) = 94100"
    using st2(2) by (simp add: notify_kept_items)
  then show ?thesis
    using s1(2) window_static(5) [OF w0 c(4)]
    by (simp add: sizeAt_def w0 arr_get_staticStore)
qed

section \<open>Well-formed stores\<close>

lemma storeOK_iff:
  "storeOK ms \<longleftrightarrow>
     (\<forall>i<length ms. \<exists>e. ms ! i = Some e \<and> 0 \<le> ms_start e \<and> 0 \<le> ms_end e \<and> 0 \<le> ms_size e)
     \<and> (ms \<noteq> [] \<longrightarrow> (\<exists>e. ms ! 0 = Some e \<and> ms_start e = 0))"
proof -
  have a: "list_all (\<lambda>m. case m of None \<Rightarrow> False
                      | Some e \<Rightarrow> 0 \<le> ms_start e \<and> 0 \<le> ms_end e \<and> 0 \<le> ms_size e) ms
       \<longleftrightarrow> (\<forall>i<length ms. \<exists>e. ms ! i = Some e \<and> 0 \<le> ms_start e \<and> 0 \<le> ms_end e \<and> 0 \<le> ms_size e)"
    by (auto simp: list_all_length split: option.splits)
  have b: "(case ms of [] \<Rightarrow> True | m # rest \<Rightarrow> map_option ms_start m = Some 0)
       \<longleftrightarrow> (ms \<noteq> [] \<longrightarrow> (\<exists>e. ms ! 0 = Some e \<and> ms_start e = 0))"
    by (cases ms) auto
  show ?thesis unfolding storeOK_def a b ..
qed

lemma storeOK_dense: "storeOK ms \<Longrightarrow> dense ms"
  by (auto simp: storeOK_iff dense_def list_all_length)

lemma storeOK_startAt:
  assumes "storeOK ms" "0 \<le> j" "j < int (length ms)"
  shows "0 \<le> startAt ms j"
proof -
  have "nat j < length ms" using assms(2,3) by simp
  then obtain e where "ms ! nat j = Some e" "0 \<le> ms_start e"
    using assms(1) by (auto simp: storeOK_iff)
  then show ?thesis using assms(2,3) by (simp add: startAt_def arr_get_def)
qed

lemma storeOK_first: "storeOK ms \<Longrightarrow> ms \<noteq> [] \<Longrightarrow> startAt ms 0 = 0"
  by (auto simp: storeOK_iff startAt_def arr_get_def)

lemma getItemSize_nonneg: "nonnegSizes cfg \<Longrightarrow> 0 \<le> getItemSize cfg st i"
proof (cases "itemSize cfg")
  case (FixedSize s)
  assume "nonnegSizes cfg"
  then show ?thesis using FixedSize by (simp add: nonnegSizes_def getItemSize_def)
next
  case (SizeFn f)
  assume "nonnegSizes cfg"
  then have "case f i (width (outerRect st)) of None \<Rightarrow> True | Some s \<Rightarrow> 0 \<le> s"
    using SizeFn by (simp add: nonnegSizes_def)
  then show ?thesis
    using SizeFn by (simp add: getItemSize_def DEFAULT_ITEM_SIZE_def split: option.splits)
qed

lemma cachedSize_nonneg:
  assumes "nonnegSizes cfg" "storeOK (msData st)"
  shows "0 \<le> cachedSize cfg st u j"
proof (cases "u \<and> j < itemCount cfg \<and> j < length (msData st)")
  case True
  then obtain e where e: "msData st ! j = Some e" "0 \<le> ms_size e"
    using assms(2) by (auto simp: storeOK_iff)
  have "arr_get (set_length (msData st) (itemCount cfg)) (int j) = Some e"
    using True e(1) by (auto simp: arr_get_nat set_length_def nth_append)
  then show ?thesis using True e(2) by (simp add: cachedSize_def)
next
  case False
  then have "(if u then arr_get (set_length (msData st) (itemCount cfg)) (int j) else None) = None"
    by (auto simp: arr_get_nat set_length_def nth_append)
  then show ?thesis using getItemSize_nonneg [OF assms(1)] by (simp add: cachedSize_def)
qed

lemma storeOK_measureItems:
  assumes "nonnegSizes cfg" "storeOK (msData st)"
  shows "storeOK (msData (measureItems cfg u st))"
proof -
  have s: "\<And>i. 0 \<le> (\<Sum>j<i. cachedSize cfg st u j)"
    by (rule sum_nonneg) (rule cachedSize_nonneg [OF assms])
  have c: "\<And>i. 0 \<le> cachedSize cfg st u i" by (rule cachedSize_nonneg [OF assms])
  have first: "\<exists>e. msData (measureItems cfg u st) ! 0 = Some e \<and> ms_start e = 0"
    if "msData (measureItems cfg u st) \<noteq> []"
  proof -
    have "0 < itemCount cfg"
      using that length_measureItems [of cfg u st]
      by (cases "msData (measureItems cfg u st)") auto
    then show ?thesis by (simp add: nth_measureItems)
  qed
  have each: "\<forall>i<length (msData (measureItems cfg u st)).
      \<exists>e. msData (measureItems cfg u st) ! i = Some e \<and> 0 \<le> ms_start e \<and> 0 \<le> ms_end e
          \<and> 0 \<le> ms_size e"
    using s c by (simp add: length_measureItems nth_measureItems add_nonneg_nonneg)
  show ?thesis unfolding storeOK_iff using each first by blast
qed

lemma storeOK_probe:
  assumes "storeOK ms" "i < length ms" "0 \<le> m"
  shows "storeOK (array_set ms i (getMeasure ms i m))"
proof -
  have st: "0 \<le> ms_start (getMeasure ms i m)" "0 \<le> ms_end (getMeasure ms i m)"
    "ms_size (getMeasure ms i m) = m" "i = 0 \<Longrightarrow> ms_start (getMeasure ms i m) = 0"
  proof -
    have p: "0 \<le> (case arr_get ms (int i - 1) of None \<Rightarrow> 0 | Some e \<Rightarrow> ms_end e)"
    proof (cases i)
      case 0
      then show ?thesis by (simp add: arr_get_def)
    next
      case (Suc k)
      then have "k < length ms" using assms(2) by simp
      then obtain e where "ms ! k = Some e" "0 \<le> ms_end e"
        using assms(1) unfolding storeOK_iff by blast
      then show ?thesis using Suc assms(2) by (simp add: arr_get_nat)
    qed
    show "0 \<le> ms_start (getMeasure ms i m)" "0 \<le> ms_end (getMeasure ms i m)"
      "ms_size (getMeasure ms i m) = m"
      using p assms(3) by (simp_all add: getMeasure_def Let_def)
    show "i = 0 \<Longrightarrow> ms_start (getMeasure ms i m) = 0"
      by (simp add: getMeasure_def arr_get_def)
  qed
  have upd: "array_set ms i (getMeasure ms i m) = ms[i := Some (getMeasure ms i m)]"
    using assms(2) by (simp add: array_set_def)
  show ?thesis
    unfolding upd storeOK_iff
    using assms(1,2,3) st by (auto simp: storeOK_iff nth_list_update)
qed

lemma msData_handleScroll: "msData (state_of (handleScroll cfg x a ux st)) = msData st"
  using kept_handleScroll [of cfg x a ux st] by (simp add: kept_def)

lemma msData_invoke: "msData (invoke cb st) = msData st"
  by (simp add: invoke_def complete_def split: option.splits Callback.splits)

lemma msData_scrollToOffset: "msData (scrollToOffset now val cb st) = msData st"
  by (simp add: scrollToOffset_def Let_def msData_invoke scrollTo_def requestFrame_def
      split: option.splits ScrollToArg.splits)

lemma msData_runFrame: "msData (runFrame cfg now k st) = msData st"
  by (simp add: runFrame_def Let_def msData_invoke scrollTo_def requestFrame_def
      split: option.splits)

lemma msData_complete: "msData (complete cb st) = msData st"
  by (simp add: complete_def split: option.splits)

lemma msData_scrollToItem:
  "msData (state_of (scrollToItem cfg now val cb st)) = msData st \<or>
   msData (state_of (scrollToItem cfg now val cb st)) = msData (measureItems cfg True st)"
proof -
  define st1 where "st1 = (if hasDynamicSize st then measureItems cfg True st else st)"
  have m: "msData st1 = msData st \<or> msData st1 = msData (measureItems cfg True st)"
    by (simp add: st1_def)
  have "msData (state_of (scrollToItem cfg now val cb st)) = msData st1
        \<or> msData (state_of (scrollToItem cfg now val cb st)) = msData st"
    unfolding scrollToItem_def Let_def st1_def [symmetric]
    by (simp add: msData_scrollToOffset msData_complete split: option.splits ScrollToItemArg.splits)
  then show ?thesis using m by auto
qed

lemma msData_scrollHandler: "msData (state_of (scrollHandler cfg st)) = msData st"
proof (cases "outerScrollPos st = scrollOffset st")
  case True
  then show ?thesis by (simp add: scrollHandler_def)
next
  case False
  define ux where "ux = (case useIsScrolling cfg of
                             UxFn f \<Rightarrow> f \<bar>outerScrollPos st - scrollOffset st\<bar>
                           | UxBool b \<Rightarrow> b
                           | UxUndefined \<Rightarrow> False)"
  have h: "msData (state_of (handleScroll cfg (outerScrollPos st) True ux st)) = msData st"
    by (rule msData_handleScroll)
  show ?thesis
    using False h unfolding scrollHandler_def Let_def ux_def [symmetric]
    by (cases "handleScroll cfg (outerScrollPos st) True ux st") simp_all
qed

lemma msData_observe:
  "msData (state_of (observe cfg p m st)) = msData st \<or>
   msData (state_of (observe cfg p m st)) =
     array_set (msData st) (p_idx p) (getMeasure (msData st) (p_idx p) m)"
proof (cases "m \<noteq> 0 \<and> (m \<noteq> p_size p \<or> p_start p \<noteq> endAt (msData st) (int (p_idx p) - 1))")
  case False
  then show ?thesis by (auto simp: observe_def Let_def endAt_def)
next
  case True
  define st1 where "st1 = (if int (p_idx p) < prevItemIdx st \<and> p_start p < p_scrollOffset p
     then scrollTo (p_scrollOffset p + m - p_size p) st else st)"
  define st2 where "st2 = st1\<lparr>msData := array_set (msData st1) (p_idx p)
       (getMeasure (msData st1) (p_idx p) m)\<rparr>"
  have m1: "msData st1 = msData st" by (simp add: st1_def scrollTo_def)
  have m2: "msData st2 = array_set (msData st) (p_idx p) (getMeasure (msData st) (p_idx p) m)"
    by (simp add: st2_def m1)
  have eq: "observe cfg p m st =
     (case handleScroll cfg (p_scrollOffset p) (p_isScrolling p) (p_uxScrolling p) st2 of
        Threw e st3 \<Rightarrow> Threw e st3
      | Returned st3 \<Rightarrow> Returned (st3\<lparr>hasDynamicSize := True, prevItemIdx := int (p_idx p)\<rparr>))"
    using True unfolding observe_def Let_def st2_def st1_def by (simp add: endAt_def)
  have h: "msData (state_of (handleScroll cfg (p_scrollOffset p) (p_isScrolling p)
             (p_uxScrolling p) st2)) = msData st2"
    by (rule msData_handleScroll)
  have "msData (state_of (observe cfg p m st)) = msData st2"
    using h unfolding eq
    by (cases "handleScroll cfg (p_scrollOffset p) (p_isScrolling p) (p_uxScrolling p) st2")
      simp_all
  then show ?thesis using m2 by simp
qed

text \<open>Every event keeps the store well formed, for estimated and measured sizes that are
  not negative.\<close>

lemma storeOK_step:
  assumes "nonnegSizes cfg" "storeOK (msData st)" "goodEvent st ev"
  shows "storeOK (msData (state_of (step cfg ev st)))"
proof (cases ev)
  case (Resize rect)
  have "storeOK (msData (st\<lparr>outerRect := rect\<rparr>))" using assms(2) by simp
  from storeOK_measureItems [OF assms(1) this] show ?thesis
    using Resize assms(2) by (simp add: resized_fields)
next
  case (UserScroll pos)
  then show ?thesis
    using assms(2) msData_scrollHandler [of cfg "st\<lparr>outerScrollPos := pos\<rparr>"] by simp
next
  case ScrollEvent
  then show ?thesis using assms(2) msData_scrollHandler [of cfg st] by simp
next
  case (Observe p m)
  then have "0 \<le> m" "p_idx p < length (msData st)" using assms(3) by (simp_all add: goodEvent_def)
  from storeOK_probe [OF assms(2) this(2,1)] show ?thesis
    using Observe assms(2) msData_observe [of cfg p m st] by auto
next
  case (CallScrollTo now val cb)
  then show ?thesis using assms(2) by (simp add: msData_scrollToOffset)
next
  case (CallScrollToItem now val cb)
  then show ?thesis
    using assms(2) storeOK_measureItems [OF assms(1,2), of True]
      msData_scrollToItem [of cfg now val cb st] by auto
next
  case (Frame now k)
  then show ?thesis using assms(2) by (simp add: msData_runFrame)
next
  case (Timeout now)
  show ?thesis
  proof (cases "timeouts st")
    case Nil
    then show ?thesis using Timeout assms(2) by simp
  next
    case (Cons a rest)
    obtain val cb where a: "a = (val, cb)" by (cases a)
    have "storeOK (msData (st\<lparr>timeouts := rest\<rparr>))" using assms(2) by simp
    then show ?thesis
      using Timeout Cons a storeOK_measureItems [OF assms(1), of "st\<lparr>timeouts := rest\<rparr>" True]
        msData_scrollToItem [of cfg now val cb "st\<lparr>timeouts := rest\<rparr>"] by auto
  qed
next
  case ResetIsScrolling
  then show ?thesis
    using assms(2) msData_handleScroll [of cfg "scrollOffset st" False False
        "st\<lparr>pendingResetIsScrolling := False\<rparr>"] by simp
next
  case ResetUserScroll
  then show ?thesis using assms(2) by simp
next
  case Cleanup
  then show ?thesis using assms(2) by (simp add: cleanup_def Let_def cancelResetIsScrolling_def cancelResetUserScroll_def
        split: option.splits)
qed

lemma storeOK_run:
  "nonnegSizes cfg \<Longrightarrow> storeOK (msData st) \<Longrightarrow> goodRun cfg st evs \<Longrightarrow>
   storeOK (msData (run cfg evs st))"
proof (induction evs arbitrary: st)
  case Nil
  then show ?case by simp
next
  case (Cons ev evs)
  then show ?case using storeOK_step [of cfg st ev] by simp
qed

lemma storeOK_initial: "storeOK (msData (initial outer inner))"
  by (simp add: storeOK_def initial_def)

text \<open>In a well-formed store with an item, the window calculator returns a window at
  every scroll offset that is not negative, as soon as the viewport is not empty or the
  overscan count is positive.\<close>

lemma getCalcData_returns_storeOK:
  assumes "storeOK (msData st)" "msData st \<noteq> []" "0 \<le> x"
    and "0 < overscanCount cfg \<or> 0 < outerSize cfg st"
  shows "\<exists>cd. getCalcData cfg st x = Inr cd"
proof -
  have len: "0 \<le> int (length (msData st)) - 1" "int (length (msData st)) - 1 < int (length (msData st))"
    using assms(2) by (cases "msData st", auto)+
  have l: "0 \<le> startAt (msData st) (int (length (msData st)) - 1)"
    by (rule storeOK_startAt [OF assms(1) len])
  have f: "startAt (msData st) 0 = 0" by (rule storeOK_first [OF assms(1,2)])
  show ?thesis
    using getCalcData_returns [OF storeOK_dense [OF assms(1)] assms(2) l, of cfg x] f assms(3,4)
    by auto
qed

section \<open>A rebuild after a size probe\<close>


end
